theory Spec2Isabelle
  imports Complex_Main "HOL-Library.Multiset"
begin

section \<open>Data model\<close>

text \<open>
  A Python list is a HOL list, an index a natural number or (where the source computes
  with values that may be negative) an integer. Elements are values of a linear order;
  only \<open>merge_sort\<close>, which compares with \<open><\<close> alone, is kept at the weaker class
  \<open>ord\<close>. In-place mutation is explicit state passing: every sorter returns the list it
  leaves behind. The exceptions that the code can raise are values of \<open>error\<close>.
\<close>

datatype error = IndexError | TypeError | ValueError | ZeroDivisionError

text \<open>
  The optional argument \<open>param\<close> of the dispatcher is a Python number: an \<open>int\<close> (the
  gap of shell sort) or a \<open>float\<close> (the pivot factor of quick sort). A finite float is
  represented by its rational value and float arithmetic by exact arithmetic. Python
  compares numbers by value, so \<open>1\<close> and \<open>1.0\<close> are equal under \<open><\<close> and \<open>\<le>\<close>
  although they are different objects.
\<close>

datatype number = PyInt int | PyFloat rat

fun num_val :: "number \<Rightarrow> rat" where
  "num_val (PyInt i) = of_int i"
| "num_val (PyFloat r) = r"

instantiation number :: ord
begin

definition less_eq_number :: "number \<Rightarrow> number \<Rightarrow> bool" where
  "less_eq_number x y \<longleftrightarrow> num_val x \<le> num_val y"

definition less_number :: "number \<Rightarrow> number \<Rightarrow> bool" where
  "less_number x y \<longleftrightarrow> num_val x < num_val y"

instance ..

end

text \<open>
  \<open>swap a x y\<close> is the tuple assignment \<open>a[x], a[y] = a[y], a[x]\<close>: both right-hand
  sides are read first, then \<open>a[x]\<close> and \<open>a[y]\<close> are written in this order.
\<close>

definition swap :: "'a list \<Rightarrow> nat \<Rightarrow> nat \<Rightarrow> 'a list" where
  "swap a x y = a[x := a ! y, y := a ! x]"

text \<open>
  Python's subscript: an index in \<open>[0, len)\<close> is itself, one in \<open>[-len, 0)\<close> counts
  from the end, any other raises \<open>IndexError\<close>.
\<close>

definition py_index :: "'a list \<Rightarrow> int \<Rightarrow> error + nat" where
  "py_index a i =
     (let n = int (length a) in
      if 0 \<le> i \<and> i < n then Inr (nat i)
      else if - n \<le> i \<and> i < 0 then Inr (nat (n + i))
      else Inl IndexError)"

definition getitem :: "'a list \<Rightarrow> int \<Rightarrow> error + 'a" where
  "getitem a i = (case py_index a i of Inl e \<Rightarrow> Inl e | Inr k \<Rightarrow> Inr (a ! k))"

definition py_swap :: "'a list \<Rightarrow> int \<Rightarrow> int \<Rightarrow> error + 'a list" where
  "py_swap a x y =
     (case py_index a y of Inl e \<Rightarrow> Inl e
      | Inr ky \<Rightarrow> (case py_index a x of Inl e \<Rightarrow> Inl e | Inr kx \<Rightarrow> Inr (swap a kx ky)))"

text \<open>
  \<open>range(lo, hi, step)\<close> for a positive step (for a step of zero Python raises; the
  callers below handle that case before the range is built).
\<close>

function py_range :: "nat \<Rightarrow> nat \<Rightarrow> nat \<Rightarrow> nat list" where
  "py_range lo hi step = (if 0 < step \<and> lo < hi then lo # py_range (lo + step) hi step else [])"
  by pat_completeness auto
termination
  by (relation "measure (\<lambda>(lo, hi, step). hi - lo)") auto

declare py_range.simps [simp del]


section \<open>Quick sort: \<open>partition\<close> and \<open>quick_sort\<close>\<close>

text \<open>
  \<open>int(x)\<close> truncates towards zero. The pivot index is
  \<open>int(fact * (end - start) + start)\<close>.
\<close>

definition py_int :: "rat \<Rightarrow> int" where
  "py_int x = (if 0 \<le> x then \<lfloor>x\<rfloor> else \<lceil>x\<rceil>)"

definition pivot_index :: "int \<Rightarrow> int \<Rightarrow> rat \<Rightarrow> int" where
  "pivot_index start end fct = py_int (fct * of_int (end - start) + of_int start)"

text \<open>The two inner loops: move the left mark up, move the right mark down.\<close>

function scan_left :: "'a::linorder list \<Rightarrow> 'a \<Rightarrow> int \<Rightarrow> int \<Rightarrow> error + int" where
  "scan_left a pivot left right =
     (if left \<le> right then
        (case getitem a left of Inl e \<Rightarrow> Inl e
         | Inr x \<Rightarrow> if x \<le> pivot then scan_left a pivot (left + 1) right else Inr left)
      else Inr left)"
  by pat_completeness auto
termination
  by (relation "measure (\<lambda>(a, p, l, r). nat (r + 1 - l))") auto

declare scan_left.simps [simp del]

function scan_right :: "'a::linorder list \<Rightarrow> 'a \<Rightarrow> int \<Rightarrow> int \<Rightarrow> error + int" where
  "scan_right a pivot left right =
     (if right \<ge> left then
        (case getitem a right of Inl e \<Rightarrow> Inl e
         | Inr x \<Rightarrow> if x \<ge> pivot then scan_right a pivot left (right - 1) else Inr right)
      else Inr right)"
  by pat_completeness auto
termination
  by (relation "measure (\<lambda>(a, p, l, r). nat (r + 1 - l))") auto

declare scan_right.simps [simp del]

lemma scan_left_stop:
  "scan_left a p l r = Inr l' \<Longrightarrow>
     l \<le> l' \<and> (l' \<le> r \<longrightarrow> (\<exists>x. getitem a l' = Inr x \<and> \<not> x \<le> p))"
proof (induction a p l r rule: scan_left.induct)
  case (1 a pivot left right)
  show ?case
  proof (cases "left \<le> right")
    case False
    with "1.prems" show ?thesis by (simp add: scan_left.simps)
  next
    case True
    then obtain x where gx: "getitem a left = Inr x"
      using "1.prems" by (cases "getitem a left") (auto simp: scan_left.simps)
    show ?thesis
    proof (cases "x \<le> pivot")
      case True
      with \<open>left \<le> right\<close> gx "1.prems" have "scan_left a pivot (left + 1) right = Inr l'"
        by (simp add: scan_left.simps[of a pivot left right])
      from "1.IH"[OF \<open>left \<le> right\<close> gx True this] show ?thesis by auto
    next
      case False
      with \<open>left \<le> right\<close> gx "1.prems" show ?thesis
        by (auto simp: scan_left.simps[of a pivot left right])
    qed
  qed
qed

lemma scan_right_stop:
  "scan_right a p l r = Inr r' \<Longrightarrow>
     r' \<le> r \<and> (l \<le> r' \<longrightarrow> (\<exists>x. getitem a r' = Inr x \<and> \<not> p \<le> x))"
proof (induction a p l r rule: scan_right.induct)
  case (1 a pivot left right)
  show ?case
  proof (cases "left \<le> right")
    case False
    with "1.prems" show ?thesis by (simp add: scan_right.simps)
  next
    case True
    then obtain x where gx: "getitem a right = Inr x"
      using "1.prems" by (cases "getitem a right") (auto simp: scan_right.simps)
    show ?thesis
    proof (cases "pivot \<le> x")
      case True
      with \<open>left \<le> right\<close> gx "1.prems" have "scan_right a pivot left (right - 1) = Inr r'"
        by (simp add: scan_right.simps[of a pivot left right])
      from "1.IH"[OF \<open>left \<le> right\<close> gx True this] show ?thesis by auto
    next
      case False
      with \<open>left \<le> right\<close> gx "1.prems" show ?thesis
        by (auto simp: scan_right.simps[of a pivot left right])
    qed
  qed
qed

lemma scan_right_lower:
  "scan_right a p l r = Inr r' \<Longrightarrow> min (l - 1) r \<le> r'"
proof (induction a p l r rule: scan_right.induct)
  case (1 a pivot left right)
  show ?case
  proof (cases "left \<le> right")
    case False
    with "1.prems" show ?thesis by (simp add: scan_right.simps)
  next
    case True
    then obtain x where gx: "getitem a right = Inr x"
      using "1.prems" by (cases "getitem a right") (auto simp: scan_right.simps)
    show ?thesis
    proof (cases "pivot \<le> x")
      case True
      with \<open>left \<le> right\<close> gx "1.prems" have "scan_right a pivot left (right - 1) = Inr r'"
        by (simp add: scan_right.simps[of a pivot left right])
      from "1.IH"[OF \<open>left \<le> right\<close> gx True this] \<open>left \<le> right\<close> show ?thesis by simp
    next
      case False
      with \<open>left \<le> right\<close> gx "1.prems" show ?thesis
        by (auto simp: scan_right.simps[of a pivot left right])
    qed
  qed
qed

lemma py_swap_getitem:
  "py_swap a x y = Inr a' \<Longrightarrow> getitem a y = Inr v \<Longrightarrow> getitem a' x = Inr v"
  by (auto simp: py_swap_def getitem_def py_index_def swap_def Let_def nth_list_update
           split: sum.splits if_splits)

text \<open>
  The \<open>while (True)\<close> loop that finds the split point. It returns the list and the
  final right mark. The loop ends because a pass that moves neither mark swaps an
  element that is larger than the pivot away from the left mark.
\<close>

function split :: "'a::linorder list \<Rightarrow> 'a \<Rightarrow> int \<Rightarrow> int \<Rightarrow> int \<Rightarrow> error + ('a list \<times> int)" where
  "split a pivot start left right =
     (case scan_left a pivot left right of Inl e \<Rightarrow> Inl e
      | Inr left' \<Rightarrow>
         (case scan_right a pivot left' right of Inl e \<Rightarrow> Inl e
          | Inr right' \<Rightarrow>
              if right' < left' then
                (case py_swap a start right' of Inl e \<Rightarrow> Inl e | Inr a' \<Rightarrow> Inr (a', right'))
              else
                (case py_swap a left' right' of Inl e \<Rightarrow> Inl e
                 | Inr a' \<Rightarrow> split a' pivot start left' right')))"
  by pat_completeness auto
termination
proof (relation "measure (\<lambda>(a, p, s, l, r). 2 * nat (r + 1 - l) +
          (if (case getitem a l of Inl e \<Rightarrow> False | Inr x \<Rightarrow> x \<le> p) then 0 else 1))",
       goal_cases)
  case 1
  show ?case by simp
next
  case (2 a pivot start left right left' right' a')
  from scan_left_stop[OF 2(1)] have l: "left \<le> left'"
    and lx: "left' \<le> right \<longrightarrow> (\<exists>x. getitem a left' = Inr x \<and> \<not> x \<le> pivot)" by auto
  from scan_right_stop[OF 2(2)] have r: "right' \<le> right"
    and rx: "left' \<le> right' \<longrightarrow> (\<exists>x. getitem a right' = Inr x \<and> \<not> pivot \<le> x)" by auto
  from 2(3) have le: "left' \<le> right'" by simp
  from rx le obtain y where y: "getitem a right' = Inr y" "\<not> pivot \<le> y" by auto
  from lx le r obtain x where x: "getitem a left' = Inr x" "\<not> x \<le> pivot" by auto
  from py_swap_getitem[OF 2(4) y(1)] have g': "getitem a' left' = Inr y" .
  show ?case
  proof (cases "left' = left \<and> right' = right")
    case True
    with x y g' show ?thesis by auto
  next
    case False
    with l r le have "nat (right' + 1 - left') < nat (right + 1 - left)" by auto
    then show ?thesis by (auto split: sum.splits)
  qed
qed

declare split.simps [simp del]

lemma split_unfold:
  assumes "scan_left a pivot left right = Inr left'"
    and "scan_right a pivot left' right = Inr right'"
  shows "split a pivot start left right =
     (if right' < left' then
        (case py_swap a start right' of Inl e \<Rightarrow> Inl e | Inr a' \<Rightarrow> Inr (a', right'))
      else
        (case py_swap a left' right' of Inl e \<Rightarrow> Inl e
         | Inr a' \<Rightarrow> split a' pivot start left' right'))"
  using assms by (subst split.simps) simp

lemma split_scans:
  assumes "split a pivot start left right = Inr res"
  shows "\<exists>left' right'. scan_left a pivot left right = Inr left' \<and>
           scan_right a pivot left' right = Inr right'"
proof (cases "scan_left a pivot left right")
  case (Inl e)
  with assms show ?thesis by (subst (asm) split.simps) simp
next
  case l: (Inr left')
  show ?thesis
  proof (cases "scan_right a pivot left' right")
    case (Inl e)
    with assms l show ?thesis by (subst (asm) split.simps) simp
  next
    case (Inr right')
    with l show ?thesis by blast
  qed
qed

lemma split_mark:
  "split a p s l r = Inr (a', m) \<Longrightarrow> l \<le> r + 1 \<Longrightarrow> l - 1 \<le> m \<and> m \<le> r"
proof (induction a p s l r rule: split.induct)
  case (1 a pivot start left right)
  from split_scans[OF "1.prems"(1)] obtain left' right'
    where sl: "scan_left a pivot left right = Inr left'"
      and sr: "scan_right a pivot left' right = Inr right'" by blast
  note unf = split_unfold[OF sl sr, of start]
  from scan_left_stop[OF sl] have l: "left \<le> left'" by simp
  from scan_right_stop[OF sr] have r: "right' \<le> right" by simp
  show ?case
  proof (cases "right' < left'")
    case True
    with "1.prems"(1) unf have m: "m = right'"
      by (auto split: sum.splits)
    from scan_right_lower[OF sr] l "1.prems"(2) have "left - 1 \<le> right'" by simp
    with m r show ?thesis by simp
  next
    case False
    with "1.prems"(1) unf obtain a2 where sw: "py_swap a left' right' = Inr a2"
      and rec: "split a2 pivot start left' right' = Inr (a', m)"
      by (auto split: sum.splits)
    from False have "left' \<le> right' + 1" by simp
    from "1.IH"[OF sl sr False sw rec this] l r show ?thesis by simp
  qed
qed

text \<open>
  \<open>partition(a, start, end, fact)\<close>. The name \<open>partition\<close> is taken by a list function
  of HOL, hence the suffix.
\<close>

function partition_py :: "'a::linorder list \<Rightarrow> int \<Rightarrow> int \<Rightarrow> rat \<Rightarrow> error + 'a list" where
  "partition_py a start end fct =
     (if start < end then
        (case py_swap a start (pivot_index start end fct) of Inl e \<Rightarrow> Inl e
         | Inr a1 \<Rightarrow>
            (case getitem a1 start of Inl e \<Rightarrow> Inl e
             | Inr pivot \<Rightarrow>
                (case split a1 pivot start (start + 1) end of Inl e \<Rightarrow> Inl e
                 | Inr (a2, right) \<Rightarrow>
                    (case partition_py a2 start (right - 1) fct of Inl e \<Rightarrow> Inl e
                     | Inr a3 \<Rightarrow> partition_py a3 (right + 1) end fct))))
      else Inr a)"
  by pat_completeness auto
termination
proof (relation "measure (\<lambda>(a, s, e, f). nat (e - s))", goal_cases)
  case 1
  show ?case by simp
next
  case (2 a start en fct a1 pivot x a2 right)
  from split_mark[of a1 pivot start "start + 1" en a2 right] 2 show ?case by auto
next
  case (3 a start en fct a1 pivot x a2 right a3)
  from split_mark[of a1 pivot start "start + 1" en a2 right] 3 show ?case by auto
qed

declare partition_py.simps [simp del]

definition quick_sort :: "'a::linorder list \<Rightarrow> number \<Rightarrow> error + 'a list" where
  "quick_sort a fct = partition_py a 0 (int (length a) - 1) (num_val fct)"


section \<open>Elementary sorters\<close>

text \<open>
  A \<open>for\<close> loop over a range is a fold over the list of its indices; the decreasing
  range \<open>range(len(a)-1, 0, -1)\<close> is \<open>rev [1..<length a]\<close>. In these sorters every
  subscript lies in \<open>[0, len)\<close> by construction of the ranges, so no access can raise.
\<close>

definition bubble_step :: "'a::linorder list \<Rightarrow> nat \<Rightarrow> 'a list" where
  "bubble_step a i = (if a ! i > a ! (i + 1) then swap a (i + 1) i else a)"

definition bubble_pass :: "'a::linorder list \<Rightarrow> nat \<Rightarrow> 'a list" where
  "bubble_pass a n_pass = fold (\<lambda>i a. bubble_step a i) [0..<n_pass] a"

definition bubble_sort :: "'a::linorder list \<Rightarrow> 'a list" where
  "bubble_sort a = fold (\<lambda>n_pass a. bubble_pass a n_pass) (rev [1..<length a]) a"

text \<open>
  The short bubble sort carries the flag \<open>is_sorted\<close> through a pass and leaves the
  outer loop (\<open>break\<close>) when a pass ends with the flag still set.
\<close>

definition short_bubble_step :: "'a::linorder list \<times> bool \<Rightarrow> nat \<Rightarrow> 'a list \<times> bool" where
  "short_bubble_step s i =
     (case s of (a, is_sorted) \<Rightarrow>
        if a ! i > a ! (i + 1) then (swap a (i + 1) i, False) else (a, is_sorted))"

definition short_bubble_pass :: "'a::linorder list \<Rightarrow> nat \<Rightarrow> 'a list \<times> bool" where
  "short_bubble_pass a n_pass = fold (\<lambda>i s. short_bubble_step s i) [0..<n_pass] (a, True)"

fun short_bubble_loop :: "'a::linorder list \<Rightarrow> nat list \<Rightarrow> 'a list" where
  "short_bubble_loop a [] = a"
| "short_bubble_loop a (n_pass # ns) =
     (case short_bubble_pass a n_pass of (a', is_sorted) \<Rightarrow>
        if is_sorted then a' else short_bubble_loop a' ns)"

definition short_bubble_sort :: "'a::linorder list \<Rightarrow> 'a list" where
  "short_bubble_sort a = short_bubble_loop a (rev [1..<length a])"

definition find_max :: "'a::linorder list \<Rightarrow> nat \<Rightarrow> nat" where
  "find_max a n_pass =
     fold (\<lambda>i i_max. if a ! i > a ! i_max then i else i_max) [1..<n_pass + 1] 0"

definition selection_pass :: "'a::linorder list \<Rightarrow> nat \<Rightarrow> 'a list" where
  "selection_pass a n_pass = swap a (find_max a n_pass) n_pass"

definition selection_sort :: "'a::linorder list \<Rightarrow> 'a list" where
  "selection_sort a = fold (\<lambda>n_pass a. selection_pass a n_pass) (rev [1..<length a]) a"

text \<open>
  Insertion sort with a start offset and a gap. \<open>ins_shift\<close> is the \<open>while\<close> loop that
  shifts elements while it looks for the insertion point; it returns the list and the
  final \<open>j\<close>. The loop is entered with a positive gap only, which the guard \<open>0 < gap\<close>
  records.
\<close>

function ins_shift :: "'a::linorder list \<Rightarrow> 'a \<Rightarrow> nat \<Rightarrow> nat \<Rightarrow> 'a list \<times> nat" where
  "ins_shift a val j gap =
     (if 0 < gap \<and> j \<ge> gap \<and> a ! (j - gap) > val
      then ins_shift (a[j := a ! (j - gap)]) val (j - gap) gap
      else (a, j))"
  by pat_completeness auto
termination
  by (relation "measure (\<lambda>(a, v, j, gap). j)") auto

declare ins_shift.simps [simp del]

definition ins_pass :: "'a::linorder list \<Rightarrow> nat \<Rightarrow> nat \<Rightarrow> 'a list" where
  "ins_pass a n_pass gap =
     (case ins_shift a (a ! n_pass) n_pass gap of (a', j) \<Rightarrow> a'[j := a ! n_pass])"

text \<open>
  \<open>insertion_sort(a, start, gap)\<close>. With a gap of zero \<open>range\<close> raises \<open>ValueError\<close>.
  With a negative gap the range counts down from \<open>start + gap\<close> while it is above
  \<open>len(a)\<close>: it is empty unless \<open>start + gap > len(a)\<close>, and then its first subscript
  is out of range.
\<close>

definition insertion_sort :: "'a::linorder list \<Rightarrow> nat \<Rightarrow> int \<Rightarrow> error + 'a list" where
  "insertion_sort a start gap =
     (if gap = 0 then Inl ValueError
      else if gap < 0 then (if int start + gap > int (length a) then Inl IndexError else Inr a)
      else Inr (fold (\<lambda>n_pass a. ins_pass a n_pass (nat gap))
                  (py_range (start + nat gap) (length a) (nat gap)) a))"

text \<open>
  Shell sort: \<open>n_lists = len(a) // gap\<close> (floor division, \<open>ZeroDivisionError\<close> for a
  gap of zero), then one gapped insertion sort for every \<open>i\<close> in \<open>range(n_lists + 1)\<close>
  with \<open>start = n_lists * i\<close>, then a plain insertion sort.
\<close>

fun shell_sublists :: "'a::linorder list \<Rightarrow> int \<Rightarrow> int \<Rightarrow> nat list \<Rightarrow> error + 'a list" where
  "shell_sublists a n_lists gap [] = Inr a"
| "shell_sublists a n_lists gap (i # is) =
     (case insertion_sort a (nat (n_lists * int i)) gap of Inl e \<Rightarrow> Inl e
      | Inr a' \<Rightarrow> shell_sublists a' n_lists gap is)"

definition shell_starts :: "nat \<Rightarrow> int \<Rightarrow> nat list" where
  "shell_starts n gap =
     (let n_lists = int n div gap in map (\<lambda>i. nat (n_lists * int i)) [0..<nat (n_lists + 1)])"

definition shell_passes :: "'a::linorder list \<Rightarrow> int \<Rightarrow> error + 'a list" where
  "shell_passes a gap =
     (if gap = 0 then Inl ZeroDivisionError
      else (let n_lists = int (length a) div gap
            in shell_sublists a n_lists gap [0..<nat (n_lists + 1)]))"

definition shell_sort :: "'a::linorder list \<Rightarrow> int \<Rightarrow> error + 'a list" where
  "shell_sort a gap =
     (case shell_passes a gap of Inl e \<Rightarrow> Inl e | Inr a' \<Rightarrow> insertion_sort a' 0 1)"

text \<open>
  The dispatcher hands \<open>param\<close> to \<open>shell_sort\<close> as it is. With a float gap
  \<open>len(a) // gap\<close> is a float (or raises for \<open>0.0\<close>), and \<open>range\<close> refuses a float.
\<close>

definition shell_sort_num :: "'a::linorder list \<Rightarrow> number \<Rightarrow> error + 'a list" where
  "shell_sort_num a gap =
     (case gap of PyInt g \<Rightarrow> shell_sort a g
      | PyFloat g \<Rightarrow> if g = 0 then Inl ZeroDivisionError else Inl TypeError)"


section \<open>Heap sort\<close>

text \<open>
  The class \<open>BinaryHeap\<close> is imported from another repository. It is a parameter of
  the model: a constructor from a list and the method \<open>get\<close>, which returns an item
  and the heap without it. The heap keeps its own state: writing \<open>a[i]\<close> does not
  change it.
\<close>

record ('a, 'h) binary_heap =
  heap_new :: "'a list \<Rightarrow> 'h"
  heap_get :: "'h \<Rightarrow> 'a \<times> 'h"

definition heap_sort :: "('a, 'h) binary_heap \<Rightarrow> 'a list \<Rightarrow> 'a list" where
  "heap_sort H a =
     fst (fold (\<lambda>i s. case s of (a, heap) \<Rightarrow>
                  (case heap_get H heap of (x, heap') \<Rightarrow> (a[i := x], heap')))
            [0..<length a] (a, heap_new H a))"

text \<open>
  The contract of the collaborator that the recorded outputs of the source rely on
  (heap sort of \<open>['d','f','a','k','b','g','z']\<close> is \<open>['a','b','d','f','g','k','z']\<close>):
  \<open>get\<close> removes and returns a smallest item. \<open>\<alpha>\<close> gives the items a heap holds.
\<close>

definition min_heap :: "('a::linorder, 'h) binary_heap \<Rightarrow> ('h \<Rightarrow> 'a multiset) \<Rightarrow> bool" where
  "min_heap H \<alpha> \<longleftrightarrow>
     (\<forall>xs. \<alpha> (heap_new H xs) = mset xs) \<and>
     (\<forall>h. \<alpha> h \<noteq> {#} \<longrightarrow>
        (case heap_get H h of (x, h') \<Rightarrow>
           x \<in># \<alpha> h \<and> (\<forall>y. y \<in># \<alpha> h \<longrightarrow> x \<le> y) \<and> \<alpha> h' = \<alpha> h - {#x#}))"

text \<open>A heap that meets the contract: an unordered list, searched for its minimum.\<close>

definition list_heap :: "('a::linorder, 'a list) binary_heap" where
  "list_heap =
     \<lparr>heap_new = (\<lambda>xs. xs),
      heap_get = (\<lambda>h. let x = fold min (tl h) (hd h) in (x, remove1 x h))\<rparr>"


section \<open>Merge sort\<close>

text \<open>
  The three merge loops, on the state \<open>(a, i, j, k)\<close>. \<open>k = i + j\<close> stays below
  \<open>len(a) = len(left) + len(right)\<close>, so \<open>a[k]\<close> is always in range.
\<close>

function merge_both :: "'a::ord list \<Rightarrow> 'a list \<Rightarrow> 'a list \<Rightarrow> nat \<Rightarrow> nat \<Rightarrow> nat
    \<Rightarrow> 'a list \<times> nat \<times> nat \<times> nat" where
  "merge_both left right a i j k =
     (if i < length left \<and> j < length right then
        (if left ! i < right ! j
         then merge_both left right (a[k := left ! i]) (i + 1) j (k + 1)
         else merge_both left right (a[k := right ! j]) i (j + 1) (k + 1))
      else (a, i, j, k))"
  by pat_completeness auto
termination
  by (relation "measure (\<lambda>(left, right, a, i, j, k). (length left - i) + (length right - j))")
     auto

declare merge_both.simps [simp del]

function merge_rest :: "'a list \<Rightarrow> 'a list \<Rightarrow> nat \<Rightarrow> nat \<Rightarrow> 'a list \<times> nat \<times> nat" where
  "merge_rest half a i k =
     (if i < length half then merge_rest half (a[k := half ! i]) (i + 1) (k + 1)
      else (a, i, k))"
  by pat_completeness auto
termination
  by (relation "measure (\<lambda>(half, a, i, k). length half - i)") auto

declare merge_rest.simps [simp del]

definition merge_lists :: "'a::ord list \<Rightarrow> 'a list \<Rightarrow> 'a list \<Rightarrow> 'a list" where
  "merge_lists left right a =
     (case merge_both left right a 0 0 0 of (a1, i, j, k) \<Rightarrow>
        (case merge_rest left a1 i k of (a2, i', k') \<Rightarrow>
           (case merge_rest right a2 j k' of (a3, j', k'') \<Rightarrow> a3)))"

function merge_sort :: "'a::ord list \<Rightarrow> 'a list" where
  "merge_sort a =
     (if length a > 1 then
        (let m = length a div 2;
             left = merge_sort (take m a);
             right = merge_sort (drop m a)
         in merge_lists left right a)
      else a)"
  by pat_completeness auto
termination
  by (relation "measure length") auto

declare merge_sort.simps [simp del]


section \<open>Reverse, search and the index array\<close>

text \<open>\<open>a[-1-i]\<close> with \<open>0 \<le> i < len(a)\<close> is \<open>a[len(a) - 1 - i]\<close>.\<close>

definition reverse :: "'a list \<Rightarrow> 'a list" where
  "reverse a = fold (\<lambda>i a. swap a i (length a - 1 - i)) [0..<length a div 2] a"

text \<open>
  Binary search: \<open>end\<close> starts at \<open>len(a) - 1\<close> and may become \<open>-1\<close>, so the bounds are
  integers. \<open>0 \<le> start\<close> and \<open>end < len(a)\<close> hold throughout, so the middle point is in
  range whenever the loop body runs.
\<close>

function bs_loop :: "'a::linorder list \<Rightarrow> 'a \<Rightarrow> int \<Rightarrow> int \<Rightarrow> nat option" where
  "bs_loop a v start end =
     (if start \<le> end then
        (let i = (start + end) div 2 in
         if a ! nat i = v then Some (nat i)
         else if a ! nat i > v then bs_loop a v start (i - 1)
         else bs_loop a v (i + 1) end)
      else None)"
  by pat_completeness auto
termination
  by (relation "measure (\<lambda>(a, v, s, e). nat (e - s + 1))") auto

declare bs_loop.simps [simp del]

definition binary_search :: "'a::linorder list \<Rightarrow> 'a \<Rightarrow> nat option" where
  "binary_search a v = bs_loop a v 0 (int (length a) - 1)"

fun first_match :: "'a list \<Rightarrow> 'a \<Rightarrow> nat list \<Rightarrow> nat option" where
  "first_match a v [] = None"
| "first_match a v (i # is) = (if a ! i = v then Some i else first_match a v is)"

definition sequential_search :: "'a list \<Rightarrow> 'a \<Rightarrow> nat option" where
  "sequential_search a v = first_match a v [0..<length a]"

text \<open>
  \<open>build_index\<close>: \<open>idx\<close> is a NumPy array of \<open>n\<close> integers, all zero. Reading
  \<open>a_original[i]\<close> beyond its length raises \<open>IndexError\<close>; storing \<open>None\<close> (the result
  of a failed search) into an integer array raises \<open>TypeError\<close>. The result is the
  array indexed by itself, \<open>idx[idx]\<close>, whose entry \<open>i\<close> is \<open>idx[idx[i]]\<close>.
\<close>

fun fill_index :: "'a list \<Rightarrow> 'a list \<Rightarrow> nat list \<Rightarrow> nat list \<Rightarrow> error + nat list" where
  "fill_index a_sorted a_original [] idx = Inr idx"
| "fill_index a_sorted a_original (i # is) idx =
     (if i \<ge> length a_original then Inl IndexError
      else (case sequential_search a_sorted (a_original ! i) of
              None \<Rightarrow> Inl TypeError
            | Some k \<Rightarrow> fill_index a_sorted a_original is (idx[i := k])))"

definition build_index :: "'a list \<Rightarrow> 'a list \<Rightarrow> error + nat list" where
  "build_index a_sorted a_original =
     (let n = length a_sorted in
      case fill_index a_sorted a_original [0..<n] (replicate n 0) of
        Inl e \<Rightarrow> Inl e
      | Inr idx \<Rightarrow> Inr (map (\<lambda>k. idx ! k) idx))"

text \<open>
  The array that the loop of \<open>build_index\<close> fills before it is indexed by itself,
  when every search succeeds: entry \<open>i\<close> is the first position of \<open>a_original[i]\<close>
  in \<open>a_sorted\<close>.
\<close>

definition positions :: "'a list \<Rightarrow> 'a list \<Rightarrow> nat list" where
  "positions a_sorted a_original =
     map (\<lambda>i. the (sequential_search a_sorted (a_original ! i))) [0..<length a_sorted]"


section \<open>The dispatcher\<close>

text \<open>
  \<open>sort(data, method, descending, param)\<close>; \<open>sort\<close> is a constant of HOL, hence the
  suffix. \<open>H\<close> is the heap collaborator.
\<close>

definition sort_py :: "('a::linorder, 'h) binary_heap \<Rightarrow> 'a list \<Rightarrow> string \<Rightarrow> bool
    \<Rightarrow> number option \<Rightarrow> error + ('a list \<times> nat list)" where
  "sort_py H data method descending param =
     (case (if method = ''bubble'' then Inr (bubble_sort data)
            else if method = ''short_bubble'' then Inr (short_bubble_sort data)
            else if method = ''selection'' then Inr (selection_sort data)
            else if method = ''insertion'' then insertion_sort data 0 1
            else if method = ''shell'' then
              shell_sort_num data (case param of None \<Rightarrow> PyInt 1 | Some p \<Rightarrow> p)
            else if method = ''quick'' then
              quick_sort data (case param of None \<Rightarrow> PyInt 0 | Some p \<Rightarrow> p)
            else if method = ''heap'' then Inr (heap_sort H data)
            else Inr (merge_sort data))
      of Inl e \<Rightarrow> Inl e
       | Inr a \<Rightarrow>
          (case build_index a data of Inl e \<Rightarrow> Inl e
           | Inr idx \<Rightarrow>
               if descending then Inr (reverse a, reverse idx) else Inr (a, idx)))"

text \<open>
  The arguments \<open>param\<close> that the methods are documented for: a positive integer gap
  for shell sort, a pivot factor between 0 and 1 for quick sort; the other methods
  ignore it.
\<close>

definition valid_param :: "string \<Rightarrow> number option \<Rightarrow> bool" where
  "valid_param method param =
     (if method = ''shell'' then
        (case param of None \<Rightarrow> True | Some (PyInt g) \<Rightarrow> 1 \<le> g | Some (PyFloat g) \<Rightarrow> False)
      else if method = ''quick'' then
        (case param of None \<Rightarrow> True | Some p \<Rightarrow> 0 \<le> num_val p \<and> num_val p \<le> 1)
      else True)"


section \<open>Predicates used in the proofs\<close>

text \<open>
  \<open>tail_sorted a n\<close>: every position above \<open>n\<close> holds an element that is at least
  every element before it, so the positions above \<open>n\<close> are final. \<open>max_pass a a' n\<close>:
  \<open>a'\<close> rearranges \<open>a\<close>, leaves the positions above \<open>n\<close> alone and has a largest
  element of the first \<open>n + 1\<close> at position \<open>n\<close>; this is what one pass of bubble sort
  or selection sort does.
\<close>

definition tail_sorted :: "'a::linorder list \<Rightarrow> nat \<Rightarrow> bool" where
  "tail_sorted a n \<longleftrightarrow> (\<forall>i j. i \<le> j \<and> j < length a \<and> n < j \<longrightarrow> a ! i \<le> a ! j)"

definition max_pass :: "'a::linorder list \<Rightarrow> 'a list \<Rightarrow> nat \<Rightarrow> bool" where
  "max_pass a a' n \<longleftrightarrow>
     length a' = length a \<and> mset a' = mset a \<and>
     (\<forall>k. n < k \<and> k < length a \<longrightarrow> a' ! k = a ! k) \<and>
     (\<forall>i\<le>n. a' ! i \<le> a' ! n)"

text \<open>
  For insertion sort with gap 1. \<open>sorted_upto c n\<close>: the positions \<open>0..n\<close> of \<open>c\<close> are in
  order. \<open>ins_inv c j n v\<close>, the invariant of the shifting loop with the value \<open>v\<close> in
  hand and the hole at \<open>j\<close>: the positions \<open>0..n\<close> other than \<open>j\<close> are in order and
  those above \<open>j\<close> hold elements larger than \<open>v\<close>.
\<close>

definition ins_inv :: "'a::linorder list \<Rightarrow> nat \<Rightarrow> nat \<Rightarrow> 'a \<Rightarrow> bool" where
  "ins_inv c j n v \<longleftrightarrow>
     (\<forall>i i'. i \<le> i' \<and> i' \<le> n \<and> i \<noteq> j \<and> i' \<noteq> j \<longrightarrow> c ! i \<le> c ! i') \<and>
     (\<forall>k. j < k \<and> k \<le> n \<longrightarrow> v < c ! k)"

definition sorted_upto :: "'a::linorder list \<Rightarrow> nat \<Rightarrow> bool" where
  "sorted_upto c n \<longleftrightarrow> (\<forall>i i'. i \<le> i' \<and> i' \<le> n \<longrightarrow> c ! i \<le> c ! i')"

text \<open>
  For merge sort. \<open>merge_fn\<close> is the list that the merge loops write: the smaller
  front element first, the right one when neither is smaller. \<open>merge_from\<close> is the
  three loops started in the state \<open>(a, i, j, k)\<close>.
\<close>

fun merge_fn :: "'a::ord list \<Rightarrow> 'a list \<Rightarrow> 'a list" where
  "merge_fn [] ys = ys"
| "merge_fn xs [] = xs"
| "merge_fn (x # xs) (y # ys) =
     (if x < y then x # merge_fn xs (y # ys) else y # merge_fn (x # xs) ys)"

definition merge_from :: "'a::ord list \<Rightarrow> 'a list \<Rightarrow> 'a list \<Rightarrow> nat \<Rightarrow> nat \<Rightarrow> nat \<Rightarrow> 'a list" where
  "merge_from left right a i j k =
     (case merge_both left right a i j k of (a1, i1, j1, k1) \<Rightarrow>
        (case merge_rest left a1 i1 k1 of (a2, i2, k2) \<Rightarrow>
           (case merge_rest right a2 j1 k2 of (a3, j3, k3) \<Rightarrow> a3)))"

text \<open>
  For quick sort. \<open>same_outside a a' s e\<close>: \<open>a'\<close> agrees with \<open>a\<close> at every position
  outside \<open>s..e\<close>. \<open>range_sorted a s e\<close>: the positions \<open>s..e\<close> of \<open>a\<close> are in order.
  \<open>split_post a p s e a' m\<close>, what the split loop establishes: \<open>a'\<close> rearranges \<open>a\<close>
  within \<open>s..e\<close>, the pivot \<open>p\<close> is at \<open>m\<close>, nothing larger is before it and nothing
  smaller after it.
\<close>

definition same_outside :: "'a list \<Rightarrow> 'a list \<Rightarrow> int \<Rightarrow> int \<Rightarrow> bool" where
  "same_outside a a' s e \<longleftrightarrow>
     (\<forall>k. 0 \<le> k \<and> k < int (length a) \<and> (k < s \<or> e < k) \<longrightarrow> a' ! nat k = a ! nat k)"

definition range_sorted :: "'a::linorder list \<Rightarrow> int \<Rightarrow> int \<Rightarrow> bool" where
  "range_sorted a s e \<longleftrightarrow> (\<forall>i j. s \<le> i \<and> i \<le> j \<and> j \<le> e \<longrightarrow> a ! nat i \<le> a ! nat j)"

definition split_post :: "'a::linorder list \<Rightarrow> 'a \<Rightarrow> int \<Rightarrow> int \<Rightarrow> 'a list \<Rightarrow> int \<Rightarrow> bool" where
  "split_post a p s e a' m \<longleftrightarrow>
     s \<le> m \<and> m \<le> e \<and> length a' = length a \<and> mset a' = mset a \<and> same_outside a a' s e \<and>
     a' ! nat m = p \<and> (\<forall>k. s \<le> k \<and> k < m \<longrightarrow> a' ! nat k \<le> p) \<and>
     (\<forall>k. m < k \<and> k \<le> e \<longrightarrow> p \<le> a' ! nat k)"


section \<open>Basic facts about \<open>swap\<close>; \<open>reverse\<close>\<close>


lemma length_swap [simp]: "length (swap a x y) = length a"
  by (simp add: swap_def)

lemma nth_swap:
  "x < length a \<Longrightarrow> y < length a \<Longrightarrow>
     swap a x y ! k = (if k = y then a ! x else if k = x then a ! y else a ! k)"
  by (simp add: swap_def nth_list_update)

lemma mset_swap_list [simp]:
  "x < length a \<Longrightarrow> y < length a \<Longrightarrow> mset (swap a x y) = mset a"
  by (simp add: swap_def mset_swap)

lemma reverse_prefix:
  "m \<le> length a div 2 \<Longrightarrow>
     length (fold (\<lambda>i a. swap a i (length a - 1 - i)) [0..<m] a) = length a \<and>
     (\<forall>k<length a. fold (\<lambda>i a. swap a i (length a - 1 - i)) [0..<m] a ! k =
        (if k < m \<or> length a - m \<le> k then a ! (length a - 1 - k) else a ! k))"
proof (induction m)
  case 0
  then show ?case by simp
next
  case (Suc m)
  define b where "b = fold (\<lambda>i a. swap a i (length a - 1 - i)) [0..<m] a"
  define j where "j = length a - 1 - m"
  from Suc have len: "length b = length a"
    and nth: "\<And>k. k < length a \<Longrightarrow>
        b ! k = (if k < m \<or> length a - m \<le> k then a ! (length a - 1 - k) else a ! k)"
    unfolding b_def by simp_all
  from Suc.prems have m2: "2 * m + 2 \<le> length a" by presburger
  have m: "m < length a" "j < length a" "m < j" "length a - 1 - j = m"
    "length a - Suc m = j"
  proof -
    from m2 show "m < length a" by linarith
    from m2 show "j < length a" unfolding j_def by linarith
    from m2 show "m < j" unfolding j_def by linarith
    from m2 show "length a - 1 - j = m" unfolding j_def by linarith
    from m2 show "length a - Suc m = j" unfolding j_def by linarith
  qed
  have "fold (\<lambda>i a. swap a i (length a - 1 - i)) [0..<Suc m] a
                = swap b m (length b - 1 - m)"
    unfolding b_def by simp
  then have step: "fold (\<lambda>i a. swap a i (length a - 1 - i)) [0..<Suc m] a = swap b m j"
    unfolding j_def by (simp only: len)
  have "\<not> (m < m \<or> length a - m \<le> m)" using m2 by linarith
  with nth[OF m(1)] have bm: "b ! m = a ! m" by simp
  have "\<not> (j < m \<or> length a - m \<le> j)" using m2 unfolding j_def by linarith
  with nth[OF m(2)] have bj: "b ! j = a ! j" by simp
  show ?case
  proof (intro conjI allI impI)
    show "length (fold (\<lambda>i a. swap a i (length a - 1 - i)) [0..<Suc m] a) = length a"
      by (simp only: step length_swap len)
  next
    fix k assume k: "k < length a"
    have sw: "swap b m j ! k = (if k = j then b ! m else if k = m then b ! j else b ! k)"
      using nth_swap[of m b j k] m len by simp
    consider "k = j" | "k = m" | "k \<noteq> j" "k \<noteq> m" by blast
    then have "swap b m j ! k =
        (if k < Suc m \<or> length a - Suc m \<le> k then a ! (length a - 1 - k) else a ! k)"
    proof cases
      case 1
      have "length a - Suc m \<le> j" using m(5) by simp
      with 1 sw bm m(4) show ?thesis by simp
    next
      case 2
      with sw bj m(3) show ?thesis by (simp add: j_def)
    next
      case 3
      with sw have "swap b m j ! k = b ! k" by simp
      also have "\<dots> = (if k < m \<or> length a - m \<le> k then a ! (length a - 1 - k) else a ! k)"
        using nth[OF k] .
      also have "\<dots> = (if k < Suc m \<or> length a - Suc m \<le> k then a ! (length a - 1 - k) else a ! k)"
      proof -
        have "(k < m \<or> length a - m \<le> k) = (k < Suc m \<or> length a - Suc m \<le> k)"
          using 3 m2 k unfolding j_def by linarith
        then have "(if k < m \<or> length a - m \<le> k then a ! (length a - 1 - k) else a ! k) =
          (if k < Suc m \<or> length a - Suc m \<le> k then a ! (length a - 1 - k) else a ! k)"
          by (simp only:)
        then show ?thesis .
      qed
      finally show ?thesis .
    qed
    then show "fold (\<lambda>i a. swap a i (length a - 1 - i)) [0..<Suc m] a ! k =
        (if k < Suc m \<or> length a - Suc m \<le> k then a ! (length a - 1 - k) else a ! k)"
      by (simp only: step)
  qed
qed

lemma reverse_rev: "reverse a = rev a"
proof (rule nth_equalityI)
  from reverse_prefix[of "length a div 2" a]
  show len: "length (reverse a) = length (rev a)" by (simp add: reverse_def)
  fix k assume "k < length (reverse a)"
  with len have k: "k < length a" by simp
  from reverse_prefix[of "length a div 2" a] k
  have "reverse a ! k = (if k < length a div 2 \<or> length a - length a div 2 \<le> k
                         then a ! (length a - 1 - k) else a ! k)"
    by (simp add: reverse_def)
  moreover have "\<not> (k < length a div 2 \<or> length a - length a div 2 \<le> k) \<Longrightarrow>
      length a - 1 - k = k" using k by auto
  ultimately have "reverse a ! k = a ! (length a - 1 - k)" by auto
  with k show "reverse a ! k = rev a ! k" by (simp add: rev_nth)
qed

text \<open>
  Claim C10. Applying \<open>reverse\<close> twice restores the original sequence, and one
  application puts the element that was at index \<open>i\<close> at index \<open>N - 1 - i\<close>, for every
  \<open>i\<close> below the length \<open>N\<close>.
\<close>

theorem reverse_involution:
  "reverse (reverse a) = a \<and>
   length (reverse a) = length a \<and>
   (\<forall>i. i < length a \<longrightarrow> reverse a ! (length a - 1 - i) = a ! i)"
  by (simp add: reverse_rev rev_nth)

theorem reverse_involution_witness:
  "reverse (reverse [1, 2, 3 :: int]) = [1, 2, 3] \<and> reverse [1, 2, 3 :: int] ! (3 - 1 - 0) = 1"
proof -
  have "(0::nat) < length [1, 2, 3 :: int]" by simp
  with reverse_involution[of "[1, 2, 3 :: int]"]
  have "reverse [1, 2, 3 :: int] ! (length [1, 2, 3 :: int] - 1 - 0) = [1, 2, 3 :: int] ! 0"
    by (elim conjE allE[of _ 0] impE)
  then have "reverse [1, 2, 3 :: int] ! (3 - 1 - 0) = 1" by (simp add: numeral_2_eq_2)
  moreover from reverse_involution[of "[1, 2, 3 :: int]"]
  have "reverse (reverse [1, 2, 3 :: int]) = [1, 2, 3]" by (elim conjE)
  ultimately show ?thesis by (intro conjI)
qed



section \<open>Binary search\<close>

lemma bs_loop_correct:
  "sorted a \<Longrightarrow> 0 \<le> start \<Longrightarrow> end < int (length a) \<Longrightarrow>
   (\<forall>k. k < length a \<longrightarrow> a ! k = v \<longrightarrow> start \<le> int k \<and> int k \<le> end) \<Longrightarrow>
   (case bs_loop a v start end of
      None \<Rightarrow> v \<notin> set a
    | Some i \<Rightarrow> i < length a \<and> a ! i = v)"
proof (induction a v start "end" rule: bs_loop.induct)
  case (1 a v start en)
  show ?case
  proof (cases "start \<le> en")
    case False
    with "1.prems"(4) have "\<forall>k<length a. a ! k \<noteq> v" by fastforce
    then have "v \<notin> set a" by (auto simp: in_set_conv_nth)
    with False show ?thesis by (subst bs_loop.simps) simp
  next
    case True
    define i where "i = (start + en) div 2"
    from True "1.prems" have i: "start \<le> i" "i \<le> en" "0 \<le> i" "nat i < length a"
      by (auto simp: i_def)
    show ?thesis
    proof (cases "a ! nat i = v")
      case True
      with \<open>start \<le> en\<close> i show ?thesis
        by (subst bs_loop.simps) (simp add: i_def Let_def)
    next
      case ne: False
      show ?thesis
      proof (cases "a ! nat i > v")
        case gt: True
        have "\<forall>k. k < length a \<longrightarrow> a ! k = v \<longrightarrow> start \<le> int k \<and> int k \<le> i - 1"
        proof (intro allI impI)
          fix k assume k: "k < length a" "a ! k = v"
          with "1.prems"(4) have "start \<le> int k" by blast
          moreover have "int k < i"
          proof (rule ccontr)
            assume "\<not> int k < i"
            then have "nat i \<le> k" by simp
            with \<open>sorted a\<close> k(1) have "a ! nat i \<le> a ! k" by (simp add: sorted_iff_nth_mono)
            with k(2) gt show False by simp
          qed
          ultimately show "start \<le> int k \<and> int k \<le> i - 1" by simp
        qed
        moreover have "i - 1 < int (length a)" using i by simp
        ultimately have "case bs_loop a v start (i - 1) of None \<Rightarrow> v \<notin> set a
                          | Some i \<Rightarrow> i < length a \<and> a ! i = v"
          using "1.IH"(1)[OF \<open>start \<le> en\<close> i_def ne gt "1.prems"(1,2)] by blast
        moreover have "bs_loop a v start en = bs_loop a v start (i - 1)"
          using \<open>start \<le> en\<close> ne gt by (subst bs_loop.simps) (simp add: i_def Let_def)
        ultimately show ?thesis by simp
      next
        case ngt: False
        have "\<forall>k. k < length a \<longrightarrow> a ! k = v \<longrightarrow> i + 1 \<le> int k \<and> int k \<le> en"
        proof (intro allI impI)
          fix k assume k: "k < length a" "a ! k = v"
          with "1.prems"(4) have "int k \<le> en" by blast
          moreover have "i < int k"
          proof (rule ccontr)
            assume "\<not> i < int k"
            then have "k \<le> nat i" by simp
            with \<open>sorted a\<close> i(4) have "a ! k \<le> a ! nat i" by (simp add: sorted_iff_nth_mono)
            with k(2) ngt ne show False by simp
          qed
          ultimately show "i + 1 \<le> int k \<and> int k \<le> en" by simp
        qed
        moreover have "0 \<le> i + 1" using i by simp
        ultimately have "case bs_loop a v (i + 1) en of None \<Rightarrow> v \<notin> set a
                          | Some i \<Rightarrow> i < length a \<and> a ! i = v"
          using "1.IH"(2)[OF \<open>start \<le> en\<close> i_def ne ngt "1.prems"(1) _ "1.prems"(3)] by blast
        moreover have "bs_loop a v start en = bs_loop a v (i + 1) en"
          using \<open>start \<le> en\<close> ne ngt by (subst bs_loop.simps) (simp add: i_def Let_def)
        ultimately show ?thesis by simp
      qed
    qed
  qed
qed

text \<open>
  Claim C5, as amended. On a sequence sorted in ascending order \<open>binary_search\<close> returns
  an index whose element equals the target (some such index, not always the smallest
  one) when the target occurs, and the absent marker when no element equals it. On
  \<open>[17,20,26,31,44,54,55,77,93]\<close> searching 44 returns index 4 and searching 45 returns
  the absent marker.
\<close>

theorem binary_search_finds:
  "(sorted a \<longrightarrow>
      (case binary_search a v of
         None \<Rightarrow> v \<notin> set a
       | Some i \<Rightarrow> i < length a \<and> a ! i = v)) \<and>
   binary_search [17, 20, 26, 31, 44, 54, 55, 77, 93 :: int] 44 = Some 4 \<and>
   binary_search [17, 20, 26, 31, 44, 54, 55, 77, 93 :: int] 45 = None"
proof (intro conjI impI)
  assume "sorted a"
  then show "case binary_search a v of None \<Rightarrow> v \<notin> set a | Some i \<Rightarrow> i < length a \<and> a ! i = v"
    unfolding binary_search_def by (rule bs_loop_correct) auto
next
  show "binary_search [17, 20, 26, 31, 44, 54, 55, 77, 93 :: int] 44 = Some 4"
    by (simp add: binary_search_def bs_loop.simps)
next
  show "binary_search [17, 20, 26, 31, 44, 54, 55, 77, 93 :: int] 45 = None"
    by (simp add: binary_search_def bs_loop.simps)
qed

theorem binary_search_finds_witness:
  "sorted [1, 3, 5 :: int] \<and> binary_search [1, 3, 5 :: int] 5 = Some 2 \<and> [1, 3, 5 :: int] ! 2 = 5"
proof -
  have s: "sorted [1, 3, 5 :: int]" by simp
  have b: "binary_search [1, 3, 5 :: int] 5 = Some 2" by (simp add: binary_search_def bs_loop.simps)
  from binary_search_finds[of "[1, 3, 5 :: int]" 5] s b
  have "[1, 3, 5 :: int] ! 2 = 5" by simp
  with s b show ?thesis by blast
qed

text \<open>
  The claim as first stated asks for the first index that holds the target. In
  \<open>[1, 1, 1]\<close> the target 1 is at index 0, and the search returns the middle index 1.
\<close>

theorem binary_search_not_first:
  "sorted [1, 1, 1 :: int] \<and> binary_search [1, 1, 1 :: int] 1 = Some 1 \<and>
   [1, 1, 1 :: int] ! 0 = 1"
  by (simp add: binary_search_def bs_loop.simps)


section \<open>Sequential search and the index array\<close>


lemma first_match_None:
  "first_match a v is = None \<longleftrightarrow> (\<forall>i\<in>set is. a ! i \<noteq> v)"
  by (induction "is") auto

lemma first_match_Some:
  "first_match a v is = Some k \<Longrightarrow> k \<in> set is \<and> a ! k = v"
  by (induction "is") (auto split: if_splits)

lemma sequential_search_None: "sequential_search a v = None \<longleftrightarrow> v \<notin> set a"
  by (auto simp: sequential_search_def first_match_None in_set_conv_nth)

lemma sequential_search_Some:
  "sequential_search a v = Some k \<Longrightarrow> k < length a \<and> a ! k = v"
  unfolding sequential_search_def by (drule first_match_Some) simp

lemma sequential_search_mem:
  "v \<in> set a \<Longrightarrow> \<exists>k. sequential_search a v = Some k \<and> k < length a \<and> a ! k = v"
proof -
  assume "v \<in> set a"
  then have "sequential_search a v \<noteq> None" by (simp add: sequential_search_None)
  then obtain k where "sequential_search a v = Some k" by blast
  with sequential_search_Some[OF this] show ?thesis by blast
qed

lemma fill_index_missing:
  "m \<le> i \<Longrightarrow> i < n \<Longrightarrow> i < length a_original \<Longrightarrow> a_original ! i \<notin> set a_sorted \<Longrightarrow>
     fill_index a_sorted a_original [m..<n] idx = Inl TypeError"
proof (induction "i - m" arbitrary: m idx)
  case 0
  then have mi: "m = i" by simp
  with 0 have "[m..<n] = i # [Suc i..<n]" by (simp add: upt_conv_Cons)
  moreover from 0 have "sequential_search a_sorted (a_original ! i) = None"
    by (simp add: sequential_search_None)
  ultimately show ?case using 0 by simp
next
  case (Suc d)
  then have m: "m < i" "m < n" "m < length a_original" by simp_all
  then have upt: "[m..<n] = m # [Suc m..<n]" by (simp add: upt_conv_Cons)
  show ?case
  proof (cases "sequential_search a_sorted (a_original ! m)")
    case None
    with upt m show ?thesis by simp
  next
    case (Some k)
    from Suc.hyps(2) have "d = i - Suc m" by simp
    from Suc.hyps(1)[OF this _ Suc.prems(2,3,4), of "idx[m := k]"] m
    have "fill_index a_sorted a_original [Suc m..<n] (idx[m := k]) = Inl TypeError" by simp
    with upt m Some show ?thesis by simp
  qed
qed

text \<open>
  Claim C7, as amended. When an element of the original sequence, at a position that
  \<open>build_index\<close> visits, does not occur in the sorted sequence, \<open>build_index\<close> does not
  record a marker for that position: storing the failed search result in the integer
  array raises \<open>TypeError\<close>, and the call as a whole fails.
\<close>

theorem build_index_missing_raises:
  "i < length a_sorted \<Longrightarrow> i < length a_original \<Longrightarrow> a_original ! i \<notin> set a_sorted \<Longrightarrow>
     build_index a_sorted a_original = Inl TypeError"
  using fill_index_missing[of 0 i "length a_sorted" a_original a_sorted]
  by (simp add: build_index_def)

theorem build_index_missing_raises_witness:
  "(0::nat) < length [1 :: int] \<and> [2 :: int] ! 0 \<notin> set [1 :: int] \<and>
   build_index [1 :: int] [2] = Inl TypeError"
  using build_index_missing_raises[of 0 "[1 :: int]" "[2 :: int]"] by simp

text \<open>
  The claim as first stated has \<open>build_index\<close> return an index array with a marker in
  it. For the sorted sequence \<open>[1]\<close> and the original \<open>[2]\<close> it returns no array.
\<close>

theorem build_index_not_silent:
  "[2 :: int] ! 0 \<notin> set [1 :: int] \<and> build_index [1 :: int] [2] = Inl TypeError \<and>
   (\<nexists>idx. build_index [1 :: int] [2] = Inr idx)"
  by (simp add: build_index_def sequential_search_def)

text \<open>The run in which every search succeeds.\<close>

lemma fold_update_upt:
  "m \<le> length idx \<Longrightarrow>
     fold (\<lambda>i idx. idx[i := g i]) [0..<m] idx = map g [0..<m] @ drop m idx"
proof (induction m)
  case 0
  then show ?case by simp
next
  case (Suc m)
  then have m: "m < length idx" by simp
  have "fold (\<lambda>i idx. idx[i := g i]) [0..<Suc m] idx = (map g [0..<m] @ drop m idx)[m := g m]"
    using Suc by simp
  also have "\<dots> = map g [0..<m] @ (drop m idx)[0 := g m]"
    by (simp add: list_update_append)
  also have "drop m idx = idx ! m # drop (Suc m) idx"
    using m by (simp add: Cons_nth_drop_Suc)
  finally show ?case by simp
qed

lemma fill_index_fold:
  "\<forall>i\<in>set is. i < length a_original \<and> a_original ! i \<in> set a_sorted \<Longrightarrow>
     fill_index a_sorted a_original is idx =
       Inr (fold (\<lambda>i idx. idx[i := the (sequential_search a_sorted (a_original ! i))]) is idx)"
proof (induction "is" arbitrary: idx)
  case Nil
  then show ?case by simp
next
  case (Cons i "is")
  then have "a_original ! i \<in> set a_sorted" "i < length a_original" by simp_all
  from sequential_search_mem[OF this(1)] obtain k
    where "sequential_search a_sorted (a_original ! i) = Some k" by blast
  with Cons \<open>i < length a_original\<close> show ?case by simp
qed

lemma build_index_positions:
  assumes "length a_sorted \<le> length a_original"
    and "\<forall>i<length a_sorted. a_original ! i \<in> set a_sorted"
  shows "build_index a_sorted a_original =
           Inr (map (\<lambda>k. positions a_sorted a_original ! k) (positions a_sorted a_original))"
proof -
  have "fill_index a_sorted a_original [0..<length a_sorted] (replicate (length a_sorted) 0) =
     Inr (fold (\<lambda>i idx. idx[i := the (sequential_search a_sorted (a_original ! i))])
            [0..<length a_sorted] (replicate (length a_sorted) 0))"
    using assms by (intro fill_index_fold) auto
  also have "fold (\<lambda>i idx. idx[i := the (sequential_search a_sorted (a_original ! i))])
            [0..<length a_sorted] (replicate (length a_sorted) 0) = positions a_sorted a_original"
    by (subst fold_update_upt) (simp_all add: positions_def)
  finally show ?thesis by (simp add: build_index_def)
qed

lemma positions_nth:
  assumes "i < length a_sorted" "a_original ! i \<in> set a_sorted"
  shows "positions a_sorted a_original ! i < length a_sorted \<and>
         a_sorted ! (positions a_sorted a_original ! i) = a_original ! i"
proof -
  from sequential_search_mem[OF assms(2)] obtain k where
    "sequential_search a_sorted (a_original ! i) = Some k" "k < length a_sorted"
    "a_sorted ! k = a_original ! i" by blast
  with assms(1) show ?thesis by (simp add: positions_def)
qed

lemma perm_self_index:
  assumes "mset p = mset [0..<length p]"
  shows "mset (map (\<lambda>k. p ! k) p) = mset [0..<length p]"
proof -
  have "mset (map (\<lambda>k. p ! k) p) = image_mset (\<lambda>k. p ! k) (mset p)" by simp
  also have "\<dots> = image_mset (\<lambda>k. p ! k) (mset [0..<length p])" by (simp only: assms)
  also have "\<dots> = mset (map (\<lambda>k. p ! k) [0..<length p])" by simp
  also have "map (\<lambda>k. p ! k) [0..<length p] = p" by (rule map_nth)
  finally show ?thesis using assms by simp
qed

lemma positions_perm:
  assumes "distinct a_original" and "mset a_sorted = mset a_original"
  shows "mset (positions a_sorted a_original) = mset [0..<length a_original]"
proof -
  let ?p = "positions a_sorted a_original"
  from assms(2) have len: "length a_sorted = length a_original" by (rule mset_eq_length)
  from assms(2) have set: "set a_sorted = set a_original" by (rule mset_eq_setD)
  have lenp: "length ?p = length a_original" by (simp add: positions_def len)
  have nth: "\<And>i. i < length a_original \<Longrightarrow>
      ?p ! i < length a_original \<and> a_sorted ! (?p ! i) = a_original ! i"
    using positions_nth[of _ a_sorted a_original] len set by simp
  have "distinct ?p"
    unfolding distinct_conv_nth
  proof (intro allI impI)
    fix i j assume ij: "i < length ?p" "j < length ?p" "i \<noteq> j"
    show "?p ! i \<noteq> ?p ! j"
    proof
      assume "?p ! i = ?p ! j"
      with nth[of i] nth[of j] ij lenp have "a_original ! i = a_original ! j" by metis
      with assms(1) ij lenp show False by (simp add: nth_eq_iff_index_eq)
    qed
  qed
  moreover have "set ?p \<subseteq> {0..<length a_original}"
    using nth lenp by (auto simp: in_set_conv_nth)
  then have "set ?p = {0..<length a_original}"
    using \<open>distinct ?p\<close> lenp by (intro card_subset_eq) (simp_all add: distinct_card)
  ultimately show ?thesis
    by (metis distinct_upt set_eq_iff_mset_eq_distinct set_upt)
qed

lemma build_index_perm:
  assumes "distinct a_original" and "mset a_sorted = mset a_original"
  shows "\<exists>idx. build_index a_sorted a_original = Inr idx \<and>
           mset idx = mset [0..<length a_original]"
proof -
  from assms(2) have len: "length a_sorted = length a_original" by (rule mset_eq_length)
  from assms(2) have set: "set a_sorted = set a_original" by (rule mset_eq_setD)
  have lenp: "length (positions a_sorted a_original) = length a_original"
    by (simp add: positions_def len)
  have "build_index a_sorted a_original =
           Inr (map (\<lambda>k. positions a_sorted a_original ! k) (positions a_sorted a_original))"
    using len set by (intro build_index_positions) auto
  moreover have "mset (map (\<lambda>k. positions a_sorted a_original ! k) (positions a_sorted a_original))
      = mset [0..<length a_original]"
    using perm_self_index[of "positions a_sorted a_original"] positions_perm[OF assms] lenp
    by simp
  ultimately show ?thesis by blast
qed


section \<open>The merge step on ties\<close>







section \<open>The pivot of \<open>partition\<close>\<close>

lemma pivot_index_floor:
  assumes "0 \<le> fct" "start < end" "0 \<le> start"
  shows "pivot_index start end fct = start + \<lfloor>fct * of_int (end - start)\<rfloor>"
proof -
  from assms have "0 \<le> fct * of_int (end - start) + of_int start"
    by (intro add_nonneg_nonneg mult_nonneg_nonneg) simp_all
  then have "pivot_index start end fct = \<lfloor>fct * of_int (end - start) + of_int start\<rfloor>"
    by (simp add: pivot_index_def py_int_def)
  then show ?thesis by simp
qed

lemma pivot_index_range:
  assumes "0 \<le> fct" "fct \<le> 1" "start < end" "0 \<le> start"
  shows "start \<le> pivot_index start end fct \<and> pivot_index start end fct \<le> end"
proof -
  from assms have "0 \<le> fct * of_int (end - start)"
    by (intro mult_nonneg_nonneg) simp_all
  then have lo: "0 \<le> \<lfloor>fct * of_int (end - start)\<rfloor>" by simp
  from assms have "fct * of_int (end - start) \<le> 1 * of_int (end - start)"
    by (intro mult_right_mono) simp_all
  then have "\<lfloor>fct * of_int (end - start)\<rfloor> \<le> \<lfloor>(of_int (end - start) :: rat)\<rfloor>"
    by (intro floor_mono) simp
  then have hi: "\<lfloor>fct * of_int (end - start)\<rfloor> \<le> end - start" by simp
  from lo hi pivot_index_floor[OF assms(1,3,4)] show ?thesis by simp
qed

lemma py_index_in_range:
  "0 \<le> i \<Longrightarrow> i < int (length a) \<Longrightarrow> py_index a i = Inr (nat i)"
  by (simp add: py_index_def)

lemma getitem_in_range:
  "0 \<le> i \<Longrightarrow> i < int (length a) \<Longrightarrow> getitem a i = Inr (a ! nat i)"
  by (simp add: getitem_def py_index_in_range)

lemma py_swap_in_range:
  "0 \<le> x \<Longrightarrow> x < int (length a) \<Longrightarrow> 0 \<le> y \<Longrightarrow> y < int (length a) \<Longrightarrow>
     py_swap a x y = Inr (swap a (nat x) (nat y))"
  by (simp add: py_swap_def py_index_in_range)





section \<open>Bubble sort and selection sort\<close>

lemma tail_sorted_last: "tail_sorted a (length a - 1)"
  by (auto simp: tail_sorted_def)

lemma tail_sorted_0: "tail_sorted a 0 \<Longrightarrow> sorted a"
  unfolding tail_sorted_def sorted_iff_nth_mono_less by auto

lemma mset_take_eq:
  assumes "mset a' = mset a" "drop m a' = drop m a"
  shows "mset (take m a') = mset (take m a)"
proof -
  have "mset (take m a') + mset (drop m a') = mset (take m a) + mset (drop m a)"
    using assms(1) by (simp flip: mset_append)
  with assms(2) show ?thesis by simp
qed

lemma prefix_elem:
  assumes "length a' = length a" "mset a' = mset a"
    and "\<forall>k. n < k \<and> k < length a \<longrightarrow> a' ! k = a ! k"
    and "i \<le> n" "n < length a"
  shows "\<exists>i'\<le>n. a' ! i = a ! i'"
proof -
  have "drop (Suc n) a' = drop (Suc n) a"
    using assms(1,3) by (intro nth_equalityI) auto
  from mset_take_eq[OF assms(2) this]
  have "set (take (Suc n) a') = set (take (Suc n) a)" by (rule mset_eq_setD)
  moreover have "a' ! i \<in> set (take (Suc n) a')"
    using assms(1,4,5) by (auto simp: in_set_conv_nth intro!: exI[of _ i])
  ultimately have "a' ! i \<in> set (take (Suc n) a)" by simp
  then obtain i' where "i' < Suc n" "i' < length a" "take (Suc n) a ! i' = a' ! i"
    by (auto simp: in_set_conv_nth)
  then show ?thesis by (intro exI[of _ i']) simp
qed

lemma max_pass_tail_sorted:
  assumes "Suc n < length a" "tail_sorted a (Suc n)" "max_pass a a' (Suc n)"
  shows "tail_sorted a' n"
  unfolding tail_sorted_def
proof (intro allI impI)
  fix i j assume ij: "i \<le> j \<and> j < length a' \<and> n < j"
  from assms(3) have len: "length a' = length a" and ms: "mset a' = mset a"
    and same: "\<forall>k. Suc n < k \<and> k < length a \<longrightarrow> a' ! k = a ! k"
    and mx: "\<forall>i\<le>Suc n. a' ! i \<le> a' ! Suc n"
    by (simp_all add: max_pass_def)
  show "a' ! i \<le> a' ! j"
  proof (cases "j = Suc n")
    case True
    with ij mx show ?thesis by simp
  next
    case False
    with ij have j: "Suc n < j" "j < length a" using len by simp_all
    with same have aj: "a' ! j = a ! j" by simp
    show ?thesis
    proof (cases "Suc n < i")
      case True
      with ij len same have "a' ! i = a ! i" by simp
      with aj assms(2) ij j True show ?thesis by (simp add: tail_sorted_def)
    next
      case False
      then have "i \<le> Suc n" by simp
      from prefix_elem[OF len ms same this assms(1)]
      obtain i' where "i' \<le> Suc n" "a' ! i = a ! i'" by blast
      with aj assms(2) j show ?thesis by (simp add: tail_sorted_def)
    qed
  qed
qed

lemma max_pass_fold:
  assumes pass: "\<And>a n. 0 < n \<Longrightarrow> n < length a \<Longrightarrow> max_pass a (P a n) n"
  shows "n < length a \<Longrightarrow> tail_sorted a n \<Longrightarrow>
           sorted (fold (\<lambda>n a. P a n) (rev [1..<Suc n]) a) \<and>
           mset (fold (\<lambda>n a. P a n) (rev [1..<Suc n]) a) = mset a"
proof (induction n arbitrary: a)
  case 0
  then show ?case by (simp add: tail_sorted_0)
next
  case (Suc n)
  from pass[of "Suc n" a] Suc.prems have mp: "max_pass a (P a (Suc n)) (Suc n)" by simp
  then have len: "length (P a (Suc n)) = length a" and ms: "mset (P a (Suc n)) = mset a"
    by (simp_all add: max_pass_def)
  from max_pass_tail_sorted[OF Suc.prems(1,2) mp] have ts: "tail_sorted (P a (Suc n)) n" .
  from Suc.prems(1) len have "n < length (P a (Suc n))" by simp
  from Suc.IH[OF this ts] ms show ?case by simp
qed

lemma max_pass_sort:
  fixes P :: "'a::linorder list \<Rightarrow> nat \<Rightarrow> 'a list"
  assumes pass: "\<And>a n. 0 < n \<Longrightarrow> n < length a \<Longrightarrow> max_pass a (P a n) n"
  shows "fold (\<lambda>n a. P a n) (rev [1..<length a]) a = sort a"
proof (cases "a = []")
  case True
  then show ?thesis by simp
next
  case False
  then have n: "length a - 1 < length a" "Suc (length a - 1) = length a" by simp_all
  from max_pass_fold[of P "length a - 1" a, OF pass n(1) tail_sorted_last]
  have "sorted (fold (\<lambda>n a. P a n) (rev [1..<length a]) a) \<and>
        mset (fold (\<lambda>n a. P a n) (rev [1..<length a]) a) = mset a"
    by (simp only: n(2))
  then have "sort a = fold (\<lambda>n a. P a n) (rev [1..<length a]) a"
    by (intro properties_for_sort) simp_all
  then show ?thesis by simp
qed

text \<open>One pass of bubble sort.\<close>

lemma bubble_prefix:
  "m < length a \<Longrightarrow>
     max_pass a (fold (\<lambda>i a. bubble_step a i) [0..<m] a) m"
proof (induction m)
  case 0
  then show ?case by (simp add: max_pass_def)
next
  case (Suc m)
  define b where "b = fold (\<lambda>i a. bubble_step a i) [0..<m] a"
  from Suc have mp: "max_pass a b m" by (simp add: b_def)
  then have len: "length b = length a" and ms: "mset b = mset a"
    and same: "\<And>k. m < k \<Longrightarrow> k < length a \<Longrightarrow> b ! k = a ! k"
    and mx: "\<And>i. i \<le> m \<Longrightarrow> b ! i \<le> b ! m"
    by (simp_all add: max_pass_def)
  have step: "fold (\<lambda>i a. bubble_step a i) [0..<Suc m] a = bubble_step b m"
    by (simp add: b_def)
  from Suc.prems len have r: "m < length b" "Suc m < length b" by simp_all
  show ?case
  proof (cases "b ! m > b ! (m + 1)")
    case True
    then have bs: "bubble_step b m = swap b (Suc m) m" by (simp add: bubble_step_def)
    have nth: "\<And>k. swap b (Suc m) m ! k =
        (if k = m then b ! Suc m else if k = Suc m then b ! m else b ! k)"
      using nth_swap[OF r(2) r(1)] by simp
    have "max_pass a (swap b (Suc m) m) (Suc m)"
      unfolding max_pass_def
    proof (intro conjI allI impI)
      show "length (swap b (Suc m) m) = length a" by (simp add: len)
      show "mset (swap b (Suc m) m) = mset a" using r ms by simp
    next
      fix k assume "Suc m < k \<and> k < length a"
      then show "swap b (Suc m) m ! k = a ! k" using same[of k] by (simp add: nth)
    next
      fix i assume i: "i \<le> Suc m"
      consider "i = Suc m" | "i = m" | "i < m" using i by linarith
      then show "swap b (Suc m) m ! i \<le> swap b (Suc m) m ! Suc m"
      proof cases
        case 1 then show ?thesis by simp
      next
        case 2 with True show ?thesis by (simp add: nth)
      next
        case 3 with mx[of i] show ?thesis by (simp add: nth)
      qed
    qed
    with step bs show ?thesis by simp
  next
    case False
    then have bs: "bubble_step b m = b" by (simp add: bubble_step_def)
    have "max_pass a b (Suc m)"
      unfolding max_pass_def
    proof (intro conjI allI impI)
      show "length b = length a" by (rule len)
      show "mset b = mset a" by (rule ms)
    next
      fix k assume "Suc m < k \<and> k < length a"
      then show "b ! k = a ! k" using same[of k] by simp
    next
      fix i assume i: "i \<le> Suc m"
      show "b ! i \<le> b ! Suc m"
      proof (cases "i = Suc m")
        case True then show ?thesis by simp
      next
        case ne: False
        with i have "i \<le> m" by simp
        from mx[OF this] False show ?thesis by simp
      qed
    qed
    with step bs show ?thesis by simp
  qed
qed

lemma bubble_pass_max: "n < length a \<Longrightarrow> max_pass a (bubble_pass a n) n"
  unfolding bubble_pass_def by (rule bubble_prefix)

lemma bubble_sort_sort: "bubble_sort a = sort a"
  unfolding bubble_sort_def by (rule max_pass_sort) (rule bubble_pass_max)

text \<open>One pass of selection sort.\<close>

lemma find_max_prefix:
  fixes a :: "'a::linorder list"
  shows "m < length a \<Longrightarrow>
     fold (\<lambda>i i_max. if a ! i > a ! i_max then i else i_max) [1..<Suc m] 0 \<le> m \<and>
     (\<forall>k\<le>m. a ! k \<le> a ! fold (\<lambda>i i_max. if a ! i > a ! i_max then i else i_max) [1..<Suc m] 0)"
proof (induction m)
  case 0
  then show ?case by simp
next
  case (Suc m)
  define im where "im = fold (\<lambda>i i_max. if a ! i > a ! i_max then i else i_max) [1..<Suc m] 0"
  from Suc have im: "im \<le> m" and mx: "\<And>k. k \<le> m \<Longrightarrow> a ! k \<le> a ! im"
    by (simp_all add: im_def)
  have step: "fold (\<lambda>i i_max. if a ! i > a ! i_max then i else i_max) [1..<Suc (Suc m)] 0
      = (if a ! Suc m > a ! im then Suc m else im)"
    by (simp add: im_def)
  show ?case
  proof (cases "a ! Suc m > a ! im")
    case True
    have "\<forall>k\<le>Suc m. a ! k \<le> a ! Suc m"
    proof (intro allI impI)
      fix k assume "k \<le> Suc m"
      then consider "k = Suc m" | "k \<le> m" by linarith
      then show "a ! k \<le> a ! Suc m"
      proof cases
        case 1 then show ?thesis by simp
      next
        case 2 from mx[OF this] True show ?thesis by simp
      qed
    qed
    with True show ?thesis by (simp only: step) simp
  next
    case False
    have "\<forall>k\<le>Suc m. a ! k \<le> a ! im"
    proof (intro allI impI)
      fix k assume "k \<le> Suc m"
      then consider "k = Suc m" | "k \<le> m" by linarith
      then show "a ! k \<le> a ! im"
      proof cases
        case 1 with False show ?thesis by simp
      next
        case 2 from mx[OF this] show ?thesis .
      qed
    qed
    with False im show ?thesis by (simp only: step) simp
  qed
qed

lemma find_max_max:
  "n < length a \<Longrightarrow> find_max a n \<le> n \<and> (\<forall>k\<le>n. a ! k \<le> a ! find_max a n)"
  using find_max_prefix[of n a] by (simp add: find_max_def)

lemma selection_pass_max:
  assumes "n < length a"
  shows "max_pass a (selection_pass a n) n"
proof -
  define im where "im = find_max a n"
  from find_max_max[OF assms] have im: "im \<le> n" and mx: "\<And>k. k \<le> n \<Longrightarrow> a ! k \<le> a ! im"
    by (simp_all add: im_def)
  from im assms have r: "im < length a" by simp
  have nth: "\<And>k. swap a im n ! k = (if k = n then a ! im else if k = im then a ! n else a ! k)"
    using nth_swap[OF r assms] by simp
  have "max_pass a (swap a im n) n"
    unfolding max_pass_def
  proof (intro conjI allI impI)
    show "length (swap a im n) = length a" by simp
    show "mset (swap a im n) = mset a" using r assms by simp
  next
    fix k assume "n < k \<and> k < length a"
    with im show "swap a im n ! k = a ! k" by (simp add: nth)
  next
    fix i assume "i \<le> n"
    then show "swap a im n ! i \<le> swap a im n ! n"
      using mx[of i] mx[of n] by (simp add: nth)
  qed
  then show ?thesis by (simp add: selection_pass_def im_def)
qed

lemma selection_sort_sort: "selection_sort a = sort a"
  unfolding selection_sort_def by (rule max_pass_sort) (rule selection_pass_max)


section \<open>Short bubble sort\<close>


lemma short_bubble_prefix:
  fixes a :: "'a::linorder list"
  shows "fst (fold (\<lambda>i s. short_bubble_step s i) [0..<m] (a, True))
           = fold (\<lambda>i a. bubble_step a i) [0..<m] a \<and>
         (snd (fold (\<lambda>i s. short_bubble_step s i) [0..<m] (a, True)) \<longrightarrow>
            fold (\<lambda>i a. bubble_step a i) [0..<m] a = a \<and> (\<forall>i<m. a ! i \<le> a ! Suc i))"
proof (induction m)
  case 0
  show ?case by simp
next
  case (Suc m)
  define s where "s = fold (\<lambda>i s. short_bubble_step s i) [0..<m] (a, True)"
  define b where "b = fold (\<lambda>i a. bubble_step a i) [0..<m] a"
  from Suc have f: "fst s = b" and g: "snd s \<Longrightarrow> b = a \<and> (\<forall>i<m. a ! i \<le> a ! Suc i)"
    by (simp_all add: s_def b_def)
  have step: "fold (\<lambda>i s. short_bubble_step s i) [0..<Suc m] (a, True) = short_bubble_step s m"
    "fold (\<lambda>i a. bubble_step a i) [0..<Suc m] a = bubble_step b m"
    by (simp_all add: s_def b_def)
  obtain b' fl where s: "s = (b', fl)" by (cases s)
  with f have b': "b' = b" by simp
  show ?case
  proof (cases "b ! m > b ! (m + 1)")
    case True
    then show ?thesis
      unfolding step by (simp add: s b' short_bubble_step_def bubble_step_def)
  next
    case False
    have "fl \<Longrightarrow> \<forall>i<Suc m. a ! i \<le> a ! Suc i"
    proof (intro allI impI)
      fix i assume fl: fl and i: "i < Suc m"
      from g fl s have ba: "b = a" and le: "\<forall>i<m. a ! i \<le> a ! Suc i" by simp_all
      from i consider "i = m" | "i < m" by linarith
      then show "a ! i \<le> a ! Suc i"
      proof cases
        case 1 with False ba show ?thesis by simp
      next
        case 2 with le show ?thesis by simp
      qed
    qed
    moreover have "fl \<Longrightarrow> b = a" using g s by simp
    ultimately show ?thesis
      unfolding step using False by (auto simp: s b' short_bubble_step_def bubble_step_def)
  qed
qed

lemma short_bubble_pass_eq:
  fixes a :: "'a::linorder list"
  shows "fst (short_bubble_pass a n) = bubble_pass a n"
    and "snd (short_bubble_pass a n) \<Longrightarrow> bubble_pass a n = a \<and> (\<forall>i<n. a ! i \<le> a ! Suc i)"
  using short_bubble_prefix[of n a] by (simp_all add: short_bubble_pass_def bubble_pass_def)

lemma sorted_prefix_tail:
  fixes a :: "'a::linorder list"
  assumes "\<forall>i<n. a ! i \<le> a ! Suc i" "tail_sorted a n"
  shows "sorted a"
  unfolding sorted_iff_nth_Suc
proof (intro allI impI)
  fix i assume i: "Suc i < length a"
  show "a ! i \<le> a ! Suc i"
  proof (cases "i < n")
    case True
    with assms(1) show ?thesis by simp
  next
    case False
    then have "n < Suc i" by simp
    with assms(2) i show ?thesis by (simp add: tail_sorted_def)
  qed
qed

lemma short_bubble_loop_sorted:
  fixes a :: "'a::linorder list"
  shows "n < length a \<Longrightarrow> tail_sorted a n \<Longrightarrow>
           sorted (short_bubble_loop a (rev [1..<Suc n])) \<and>
           mset (short_bubble_loop a (rev [1..<Suc n])) = mset a"
proof (induction n arbitrary: a)
  case 0
  then show ?case by (simp add: tail_sorted_0)
next
  case (Suc n)
  obtain a' fl where p: "short_bubble_pass a (Suc n) = (a', fl)"
    by (cases "short_bubble_pass a (Suc n)")
  with short_bubble_pass_eq(1)[of a "Suc n"] have a': "a' = bubble_pass a (Suc n)" by simp
  have unf: "short_bubble_loop a (rev [1..<Suc (Suc n)]) =
      (if fl then a' else short_bubble_loop a' (rev [1..<Suc n]))"
    using p by simp
  show ?case
  proof (cases fl)
    case True
    with short_bubble_pass_eq(2)[of a "Suc n"] p
    have same: "bubble_pass a (Suc n) = a" and le: "\<forall>i<Suc n. a ! i \<le> a ! Suc i" by simp_all
    from sorted_prefix_tail[OF le Suc.prems(2)] have "sorted a" .
    with True same a' show ?thesis by (simp only: unf) simp
  next
    case False
    from bubble_pass_max[OF Suc.prems(1)] a' have mp: "max_pass a a' (Suc n)" by simp
    then have len: "length a' = length a" and ms: "mset a' = mset a"
      by (simp_all add: max_pass_def)
    from max_pass_tail_sorted[OF Suc.prems(1,2) mp] have ts: "tail_sorted a' n" .
    from Suc.prems(1) len have "n < length a'" by simp
    from Suc.IH[OF this ts] ms False show ?thesis by (simp only: unf) simp
  qed
qed

lemma short_bubble_sort_sort:
  fixes a :: "'a::linorder list"
  shows "short_bubble_sort a = sort a"
proof (cases "a = []")
  case True
  then show ?thesis by (simp add: short_bubble_sort_def)
next
  case False
  then have n: "length a - 1 < length a" "Suc (length a - 1) = length a" by simp_all
  from short_bubble_loop_sorted[OF n(1) tail_sorted_last]
  have "sorted (short_bubble_loop a (rev [1..<length a])) \<and>
        mset (short_bubble_loop a (rev [1..<length a])) = mset a"
    by (simp only: n(2))
  then have "sort a = short_bubble_loop a (rev [1..<length a])"
    by (intro properties_for_sort) simp_all
  then show ?thesis by (simp add: short_bubble_sort_def)
qed

text \<open>
  Claim C9. For every input sequence \<open>short_bubble_sort\<close> and \<open>bubble_sort\<close> leave the
  same list: leaving the outer loop after a pass without a swap does not change the
  result.
\<close>

theorem short_bubble_same_as_bubble:
  fixes a :: "'a::linorder list"
  shows "short_bubble_sort a = bubble_sort a"
  by (simp add: short_bubble_sort_sort bubble_sort_sort)

theorem short_bubble_same_as_bubble_witness:
  "short_bubble_sort [1, 2, 3, 5, 4 :: int] = bubble_sort [1, 2, 3, 5, 4] \<and>
   short_bubble_sort [1, 2, 3, 5, 4 :: int] = [1, 2, 3, 4, 5]"
  using short_bubble_same_as_bubble[of "[1, 2, 3, 5, 4 :: int]"]
  by (simp add: bubble_sort_sort)


section \<open>Insertion sort\<close>


lemma py_range_unit: "py_range lo hi 1 = [lo..<hi]"
proof (induction "hi - lo" arbitrary: lo)
  case 0
  then show ?case by (subst py_range.simps) simp
next
  case (Suc d)
  then have "lo < hi" "d = hi - Suc lo" by simp_all
  with Suc.hyps(1)[of "Suc lo"] show ?case
    by (subst py_range.simps) (simp add: upt_conv_Cons)
qed

lemma py_range_bound: "n \<in> set (py_range lo hi step) \<Longrightarrow> n < hi"
proof (induction lo hi step rule: py_range.induct)
  case (1 lo hi step)
  show ?case
  proof (cases "0 < step \<and> lo < hi")
    case True
    with "1.prems" have "n = lo \<or> n \<in> set (py_range (lo + step) hi step)"
      by (subst (asm) py_range.simps) simp
    with True "1.IH" show ?thesis by blast
  next
    case False
    with "1.prems" show ?thesis by (subst (asm) py_range.simps) simp
  qed
qed

lemma ins_shift_mset:
  fixes a :: "'a::linorder list"
  shows "j < length a \<Longrightarrow>
     (case ins_shift a v j gap of (a', j') \<Rightarrow>
        length a' = length a \<and> j' \<le> j \<and> mset (a'[j' := v]) = mset (a[j := v]))"
proof (induction a v j gap rule: ins_shift.induct)
  case (1 a v j gap)
  show ?case
  proof (cases "0 < gap \<and> j \<ge> gap \<and> a ! (j - gap) > v")
    case False
    then have "ins_shift a v j gap = (a, j)"
      by (subst ins_shift.simps) (simp only: if_False)
    then show ?thesis by simp
  next
    case True
    define a1 where "a1 = a[j := a ! (j - gap)]"
    from True have unf: "ins_shift a v j gap = ins_shift a1 v (j - gap) gap"
      unfolding a1_def by (subst ins_shift.simps) (simp only: if_True simp_thms)
    from True "1.prems" have r2: "j - gap < length a" and r3: "j - gap \<noteq> j"
      by linarith+
    from r2 have r1: "j - gap < length a1" by (simp add: a1_def)
    note r = r1 r2 r3
    from "1.IH"[OF True] r(1)
    have ih: "case ins_shift a1 v (j - gap) gap of (a', j') \<Rightarrow>
        length a' = length a1 \<and> j' \<le> j - gap \<and> mset (a'[j' := v]) = mset (a1[j - gap := v])"
      by (simp add: a1_def)
    define c where "c = a[j := v]"
    have lc: "j < length c" "j - gap < length c" using "1.prems" r(2) by (simp_all add: c_def)
    have "a1[j - gap := v] = c[j := c ! (j - gap), j - gap := c ! j]"
      using r(3) "1.prems" by (simp add: a1_def c_def)
    then have "mset (a1[j - gap := v]) = mset c"
      using mset_swap[OF lc(2) lc(1)] by simp
    with ih have "case ins_shift a1 v (j - gap) gap of (a', j') \<Rightarrow>
        length a' = length a \<and> j' \<le> j \<and> mset (a'[j' := v]) = mset (a[j := v])"
      by (auto simp: a1_def c_def)
    with unf show ?thesis by simp
  qed
qed

lemma ins_pass_mset:
  fixes a :: "'a::linorder list"
  assumes "n < length a"
  shows "length (ins_pass a n gap) = length a \<and> mset (ins_pass a n gap) = mset a"
proof -
  obtain a' j' where s: "ins_shift a (a ! n) n gap = (a', j')"
    by (cases "ins_shift a (a ! n) n gap")
  with ins_shift_mset[OF assms, of "a ! n" gap]
  have "length a' = length a" "mset (a'[j' := a ! n]) = mset (a[n := a ! n])" by simp_all
  then show ?thesis by (simp add: ins_pass_def s)
qed

lemma fold_ins_pass_mset:
  fixes a :: "'a::linorder list"
  shows "\<forall>n\<in>set ns. n < length a \<Longrightarrow>
     length (fold (\<lambda>n a. ins_pass a n gap) ns a) = length a \<and>
     mset (fold (\<lambda>n a. ins_pass a n gap) ns a) = mset a"
proof (induction ns arbitrary: a)
  case Nil
  then show ?case by simp
next
  case (Cons n ns)
  then have "n < length a" by simp
  from ins_pass_mset[OF this, of gap]
  have l: "length (ins_pass a n gap) = length a" and m: "mset (ins_pass a n gap) = mset a"
    by simp_all
  from Cons.prems l have "\<forall>k\<in>set ns. k < length (ins_pass a n gap)" by simp
  from Cons.IH[OF this] l m show ?case by simp
qed

lemma insertion_sort_mset:
  fixes a :: "'a::linorder list"
  assumes "1 \<le> gap"
  shows "\<exists>a'. insertion_sort a start gap = Inr a' \<and> length a' = length a \<and> mset a' = mset a"
proof -
  have "\<forall>n\<in>set (py_range (start + nat gap) (length a) (nat gap)). n < length a"
    by (auto dest: py_range_bound)
  from fold_ins_pass_mset[OF this, of "nat gap"] assms show ?thesis
    by (simp add: insertion_sort_def)
qed

lemma ins_inv_step:
  fixes a :: "'a::linorder list"
  assumes inv: "ins_inv (a[Suc p := v]) (Suc p) n v" and j: "Suc p \<le> n" "n < length a"
    and gt: "v < a ! p"
  shows "ins_inv (a[Suc p := a ! p, p := v]) p n v"
proof -
  define c where "c = a[Suc p := v]"
  define c' where "c' = a[Suc p := a ! p, p := v]"
  from j have jl: "Suc p < length a" "p < length a" by linarith+
  have c: "\<And>k. k < length a \<Longrightarrow> c ! k = (if k = Suc p then v else a ! k)"
    by (simp add: c_def nth_list_update)
  have c': "\<And>k. k < length a \<Longrightarrow>
      c' ! k = (if k = p then v else if k = Suc p then a ! p else a ! k)"
    by (simp add: c'_def nth_list_update)
  from inv have ord: "\<And>i i'. i \<le> i' \<Longrightarrow> i' \<le> n \<Longrightarrow> i \<noteq> Suc p \<Longrightarrow> i' \<noteq> Suc p \<Longrightarrow> c ! i \<le> c ! i'"
    and big: "\<And>k. Suc p < k \<Longrightarrow> k \<le> n \<Longrightarrow> v < c ! k"
    by (simp_all add: ins_inv_def c_def)
  have cp: "c ! p = a ! p" using c[OF jl(2)] by simp
  have c'j: "c' ! Suc p = a ! p" using c'[OF jl(1)] by simp
  have "ins_inv c' p n v"
    unfolding ins_inv_def
  proof (intro conjI allI impI)
    fix i i' assume h: "i \<le> i' \<and> i' \<le> n \<and> i \<noteq> p \<and> i' \<noteq> p"
    then have il: "i < length a" "i' < length a" using j by linarith+
    from h have ip: "i \<noteq> p" "i' \<noteq> p" by simp_all
    show "c' ! i \<le> c' ! i'"
    proof (cases "i = Suc p")
      case ij: True
      show ?thesis
      proof (cases "i' = Suc p")
        case True with ij show ?thesis by simp
      next
        case False
        with h ij have "p \<le> i'" "i' \<le> n" by linarith+
        from ord[OF this _ False] have "c ! p \<le> c ! i'" by simp
        moreover have "c' ! i' = c ! i'" using c[OF il(2)] c'[OF il(2)] ip False by simp
        ultimately show ?thesis using ij c'j cp by simp
      qed
    next
      case nij: False
      have ci: "c' ! i = c ! i" using c[OF il(1)] c'[OF il(1)] ip nij by simp
      show ?thesis
      proof (cases "i' = Suc p")
        case True
        with h nij have "i \<le> p" "p \<le> n" using j by linarith+
        from ord[OF this nij] have "c ! i \<le> c ! p" by simp
        with ci cp c'j True show ?thesis by simp
      next
        case False
        have "c' ! i' = c ! i'" using c[OF il(2)] c'[OF il(2)] ip False by simp
        moreover from h have "i \<le> i'" "i' \<le> n" by simp_all
        from ord[OF this nij False] have "c ! i \<le> c ! i'" .
        ultimately show ?thesis using ci by simp
      qed
    qed
  next
    fix k assume h: "p < k \<and> k \<le> n"
    then have kl: "k < length a" using j by linarith
    show "v < c' ! k"
    proof (cases "k = Suc p")
      case True
      with c'j gt show ?thesis by simp
    next
      case False
      with h have "Suc p < k" "k \<le> n" by linarith+
      from big[OF this] have "v < c ! k" .
      moreover have "c' ! k = c ! k" using c[OF kl] c'[OF kl] h False by simp
      ultimately show ?thesis by simp
    qed
  qed
  then show ?thesis by (simp add: c'_def)
qed

lemma ins_inv_exit:
  fixes a :: "'a::linorder list"
  assumes inv: "ins_inv (a[j := v]) j n v" and j: "j \<le> n" "n < length a"
    and stop: "\<And>p. j = Suc p \<Longrightarrow> a ! p \<le> v"
  shows "sorted_upto (a[j := v]) n"
  unfolding sorted_upto_def
proof (intro allI impI)
  define c where "c = a[j := v]"
  from j have jl: "j < length a" by linarith
  have cj: "c ! j = v" using jl by (simp add: c_def)
  from inv have ord: "\<And>i i'. i \<le> i' \<Longrightarrow> i' \<le> n \<Longrightarrow> i \<noteq> j \<Longrightarrow> i' \<noteq> j \<Longrightarrow> c ! i \<le> c ! i'"
    and big: "\<And>k. j < k \<Longrightarrow> k \<le> n \<Longrightarrow> v < c ! k"
    by (simp_all add: ins_inv_def c_def)
  fix i i' assume h: "i \<le> i' \<and> i' \<le> n"
  have "c ! i \<le> c ! i'"
  proof (cases "i = j")
    case ij: True
    show ?thesis
    proof (cases "i' = j")
      case True with ij show ?thesis by simp
    next
      case False
      with h ij have "j < i'" "i' \<le> n" by linarith+
      from big[OF this] ij cj show ?thesis by simp
    qed
  next
    case nij: False
    show ?thesis
    proof (cases "i' = j")
      case True
      with h nij have lt: "i < j" by linarith
      then obtain p where p: "j = Suc p" by (cases j) simp_all
      with lt j have j1: "i \<le> p" "p \<le> n" "p \<noteq> j" "p < length a" by linarith+
      from stop[OF p] have "a ! p \<le> v" .
      moreover have "c ! p = a ! p" using j1 p by (simp add: c_def)
      moreover from ord[OF j1(1,2) nij j1(3)] have "c ! i \<le> c ! p" .
      ultimately show ?thesis using True cj by simp
    next
      case False
      from h have "i \<le> i'" "i' \<le> n" by simp_all
      from ord[OF this nij False] show ?thesis .
    qed
  qed
  then show "a[j := v] ! i \<le> a[j := v] ! i'" by (simp add: c_def)
qed

lemma ins_shift_sorted:
  fixes a :: "'a::linorder list"
  shows "gap = Suc 0 \<Longrightarrow> j \<le> n \<Longrightarrow> n < length a \<Longrightarrow> ins_inv (a[j := v]) j n v \<Longrightarrow>
     (case ins_shift a v j gap of (a', j') \<Rightarrow> sorted_upto (a'[j' := v]) n)"
proof (induction a v j gap rule: ins_shift.induct)
  case (1 a v j gap)
  note g = \<open>gap = Suc 0\<close>
  show ?case
  proof (cases "0 < gap \<and> j \<ge> gap \<and> a ! (j - gap) > v")
    case False
    then have unf: "ins_shift a v j gap = (a, j)"
      by (subst ins_shift.simps) (simp only: if_False)
    have "\<And>p. j = Suc p \<Longrightarrow> a ! p \<le> v"
    proof -
      fix p assume "j = Suc p"
      with False g show "a ! p \<le> v" by simp
    qed
    from ins_inv_exit[OF "1.prems"(4,2,3) this] unf show ?thesis by simp
  next
    case True
    have unf: "ins_shift a v j gap = ins_shift (a[j := a ! (j - gap)]) v (j - gap) gap"
      using True by (subst ins_shift.simps) (simp only: if_True simp_thms)
    from True g obtain p where p: "j = Suc p" by (cases j) simp_all
    with True g have gt: "v < a ! p" by simp
    have "ins_inv (a[Suc p := v]) (Suc p) n v" using "1.prems"(4) p by simp
    moreover have "Suc p \<le> n" using "1.prems"(2) p by simp
    ultimately have "ins_inv (a[Suc p := a ! p, p := v]) p n v"
      using "1.prems"(3) gt by (rule ins_inv_step)
    then have inv': "ins_inv ((a[j := a ! (j - gap)])[j - gap := v]) (j - gap) n v"
      by (simp add: g p)
    have "j - gap \<le> n" "n < length (a[j := a ! (j - gap)])"
      using "1.prems"(2,3) by simp_all
    from "1.IH"[OF True g this inv'] unf show ?thesis by simp
  qed
qed

lemma ins_pass_sorted:
  fixes a :: "'a::linorder list"
  assumes "n < length a" and "\<forall>i i'. i \<le> i' \<and> i' < n \<longrightarrow> a ! i \<le> a ! i'"
  shows "sorted_upto (ins_pass a n 1) n"
proof -
  have "ins_inv a n n (a ! n)"
    unfolding ins_inv_def
  proof (intro conjI allI impI)
    fix i i' assume "i \<le> i' \<and> i' \<le> n \<and> i \<noteq> n \<and> i' \<noteq> n"
    then have "i \<le> i' \<and> i' < n" by linarith
    with assms(2) show "a ! i \<le> a ! i'" by blast
  next
    fix k assume "n < k \<and> k \<le> n"
    then have False by linarith
    then show "a ! n < a ! k" ..
  qed
  then have "ins_inv (a[n := a ! n]) n n (a ! n)" by simp
  from ins_shift_sorted[OF refl le_refl assms(1) this]
  have "case ins_shift a (a ! n) n (Suc 0) of (a', j') \<Rightarrow> sorted_upto (a'[j' := a ! n]) n" .
  then show ?thesis by (simp add: ins_pass_def split: prod.splits)
qed

lemma insertion_prefix:
  fixes a :: "'a::linorder list"
  shows "m < length a \<Longrightarrow>
     length (fold (\<lambda>n a. ins_pass a n 1) [1..<Suc m] a) = length a \<and>
     mset (fold (\<lambda>n a. ins_pass a n 1) [1..<Suc m] a) = mset a \<and>
     sorted_upto (fold (\<lambda>n a. ins_pass a n 1) [1..<Suc m] a) m"
proof (induction m)
  case 0
  then show ?case by (simp add: sorted_upto_def)
next
  case (Suc m)
  define b where "b = fold (\<lambda>n a. ins_pass a n 1) [1..<Suc m] a"
  from Suc have len: "length b = length a" and ms: "mset b = mset a" and so: "sorted_upto b m"
    by (simp_all add: b_def)
  have step: "fold (\<lambda>n a. ins_pass a n 1) [1..<Suc (Suc m)] a = ins_pass b (Suc m) 1"
    by (simp add: b_def)
  from Suc.prems len have l: "Suc m < length b" by simp
  from so have "\<forall>i i'. i \<le> i' \<and> i' < Suc m \<longrightarrow> b ! i \<le> b ! i'"
    by (simp add: sorted_upto_def)
  from ins_pass_sorted[OF l this] ins_pass_mset[OF l, of 1] len ms
  have "length (ins_pass b (Suc m) 1) = length a \<and> mset (ins_pass b (Suc m) 1) = mset a \<and>
        sorted_upto (ins_pass b (Suc m) 1) (Suc m)" by simp
  then show ?case by (simp only: step)
qed

lemma insertion_sort_sort:
  fixes a :: "'a::linorder list"
  shows "insertion_sort a 0 1 = Inr (sort a)"
proof (cases "a = []")
  case True
  then show ?thesis by (simp add: insertion_sort_def py_range_unit[simplified])
next
  case False
  define b where "b = fold (\<lambda>n a. ins_pass a n 1) [1..<length a] a"
  from False have n: "length a - 1 < length a" "Suc (length a - 1) = length a" by simp_all
  from insertion_prefix[OF n(1)] have len: "length b = length a" and ms: "mset b = mset a"
    and so: "sorted_upto b (length a - 1)"
    by (simp_all only: n(2) b_def)
  have "sorted b"
    unfolding sorted_iff_nth_mono
  proof (intro allI impI)
    fix i j assume "i \<le> j" "j < length b"
    with len have "i \<le> j \<and> j \<le> length a - 1" by linarith
    with so show "b ! i \<le> b ! j" by (simp add: sorted_upto_def)
  qed
  with ms have "sort a = b" by (intro properties_for_sort) simp_all
  then show ?thesis by (simp add: insertion_sort_def py_range_unit[simplified] b_def)
qed



section \<open>Shell sort\<close>

lemma shell_sublists_mset:
  fixes a :: "'a::linorder list"
  assumes "1 \<le> gap"
  shows "\<exists>a'. shell_sublists a n_lists gap is = Inr a' \<and> length a' = length a \<and> mset a' = mset a"
proof (induction "is" arbitrary: a)
  case Nil
  show ?case by simp
next
  case (Cons i "is")
  from insertion_sort_mset[OF assms, of a "nat (n_lists * int i)"] obtain a1 where
    a1: "insertion_sort a (nat (n_lists * int i)) gap = Inr a1" "length a1 = length a"
        "mset a1 = mset a" by blast
  from Cons[of a1] obtain a' where "shell_sublists a1 n_lists gap is = Inr a'"
    "length a' = length a1" "mset a' = mset a1" by blast
  with a1 show ?case by simp
qed

lemma shell_passes_mset:
  fixes a :: "'a::linorder list"
  assumes "1 \<le> gap"
  shows "\<exists>a'. shell_passes a gap = Inr a' \<and> length a' = length a \<and> mset a' = mset a"
  using shell_sublists_mset[OF assms] assms by (simp add: shell_passes_def Let_def)

lemma shell_sort_sort:
  fixes a :: "'a::linorder list"
  assumes "1 \<le> gap"
  shows "shell_sort a gap = Inr (sort a)"
proof -
  from shell_passes_mset[OF assms, of a] obtain a' where
    a': "shell_passes a gap = Inr a'" "mset a' = mset a" by blast
  from a'(2) have "sort a' = sort a"
    by (intro properties_for_sort) simp_all
  with a'(1) insertion_sort_sort[of a'] show ?thesis by (simp add: shell_sort_def)
qed





section \<open>Merge sort\<close>

lemma merge_fn_Nil2 [simp]: "merge_fn xs [] = xs"
  by (cases xs) simp_all

lemma mset_merge_fn: "mset (merge_fn xs ys) = mset xs + mset ys"
  by (induction xs ys rule: merge_fn.induct) simp_all

lemma set_merge_fn: "set (merge_fn xs ys) = set xs \<union> set ys"
  by (induction xs ys rule: merge_fn.induct) auto

lemma sorted_merge_fn:
  fixes xs :: "'a::linorder list"
  shows "sorted xs \<Longrightarrow> sorted ys \<Longrightarrow> sorted (merge_fn xs ys)"
  by (induction xs ys rule: merge_fn.induct) (auto simp: set_merge_fn)

lemma take_Suc_update: "k < length a \<Longrightarrow> take (Suc k) (a[k := x]) = take k a @ [x]"
  by (simp add: take_Suc_conv_app_nth)

lemma merge_rest_result:
  "i \<le> length half \<Longrightarrow> k + (length half - i) \<le> length a \<Longrightarrow>
     merge_rest half a i k =
       (take k a @ drop i half @ drop (k + (length half - i)) a, length half, k + (length half - i))"
proof (induction half a i k rule: merge_rest.induct)
  case (1 half a i k)
  show ?case
  proof (cases "i < length half")
    case False
    with "1.prems" have "i = length half" by simp
    then show ?thesis by (subst merge_rest.simps) simp
  next
    case True
    with "1.prems" have k: "k < length a" by linarith
    define a1 where "a1 = a[k := half ! i]"
    define n' where "n' = k + (length half - i)"
    have unf: "merge_rest half a i k = merge_rest half a1 (i + 1) (k + 1)"
      unfolding a1_def using True by (subst merge_rest.simps) simp
    have p1: "i + 1 \<le> length half" using True by linarith
    have "k + 1 + (length half - (i + 1)) \<le> length a" using True "1.prems" by linarith
    then have p2: "k + 1 + (length half - (i + 1)) \<le> length (a[k := half ! i])"
      by (simp only: length_list_update)
    note p = p1 p2
    have e: "k + 1 + (length half - (i + 1)) = n'" unfolding n'_def using True by linarith
    have ih: "merge_rest half a1 (i + 1) (k + 1) =
        (take (k + 1) a1 @ drop (i + 1) half @ drop n' a1, length half, n')"
      using "1.IH"[OF True p] unfolding a1_def[symmetric] e .
    have f1: "take (k + 1) a1 @ drop (i + 1) half @ drop n' a1
        = take k a @ drop i half @ drop n' a"
    proof -
      have "take (k + 1) a1 = take k a @ [half ! i]"
        unfolding a1_def using k by (simp add: take_Suc_update)
      moreover have "drop i half = half ! i # drop (i + 1) half"
        using True by (simp add: Cons_nth_drop_Suc)
      moreover have "k < n'" unfolding n'_def using True by linarith
      then have "drop n' a1 = drop n' a"
        unfolding a1_def by (rule drop_update_cancel)
      ultimately show ?thesis by simp
    qed
    show ?thesis unfolding n'_def[symmetric] by (simp only: unf ih f1)
  qed
qed

lemma merge_from_result:
  "i \<le> length left \<Longrightarrow> j \<le> length right \<Longrightarrow>
   k + (length left - i) + (length right - j) \<le> length a \<Longrightarrow>
     merge_from left right a i j k =
       take k a @ merge_fn (drop i left) (drop j right)
         @ drop (k + (length left - i) + (length right - j)) a"
proof (induction left right a i j k rule: merge_both.induct)
  case (1 left right a i j k)
  define n' where "n' = k + (length left - i) + (length right - j)"
  show ?case
  proof (cases "i < length left \<and> j < length right")
    case False
    then have mb: "merge_both left right a i j k = (a, i, j, k)"
      by (subst merge_both.simps) (simp only: if_False)
    define a2 where "a2 = take k a @ drop i left @ drop (k + (length left - i)) a"
    define k2 where "k2 = k + (length left - i)"
    have r1: "merge_rest left a i k = (a2, length left, k2)"
      unfolding a2_def k2_def using "1.prems" by (intro merge_rest_result) simp_all
    have l2: "length a2 = length a" using "1.prems" by (simp add: a2_def)
    have r2: "merge_rest right a2 j k2 =
        (take k2 a2 @ drop j right @ drop (k2 + (length right - j)) a2,
         length right, k2 + (length right - j))"
      using "1.prems" l2 unfolding k2_def by (intro merge_rest_result) simp_all
    have res: "merge_from left right a i j k =
        take k2 a2 @ drop j right @ drop (k2 + (length right - j)) a2"
      by (simp only: merge_from_def mb r1 r2 prod.case)
    from False "1.prems" consider "i = length left" | "j = length right" "i < length left"
      by linarith
    then show ?thesis
    proof cases
      case 1
      then have "a2 = a" "k2 = k" by (simp_all add: a2_def k2_def)
      with res 1 show ?thesis by simp
    next
      case 2
      have "take k2 a2 = take k a @ drop i left"
        using "1.prems" by (simp add: a2_def k2_def)
      moreover have "drop k2 a2 = drop k2 a"
        using "1.prems" by (simp add: a2_def k2_def)
      ultimately show ?thesis using res 2 by (simp add: k2_def)
    qed
  next
    case True
    then have k: "k < length a" using "1.prems" by linarith
    from True have dl: "drop i left = left ! i # drop (i + 1) left"
      and dr: "drop j right = right ! j # drop (j + 1) right"
      by (simp_all add: Cons_nth_drop_Suc)
    show ?thesis
    proof (cases "left ! i < right ! j")
      case lt: True
      define a1 where "a1 = a[k := left ! i]"
      have unf: "merge_from left right a i j k = merge_from left right a1 (i + 1) j (k + 1)"
        unfolding merge_from_def a1_def using True lt by (subst merge_both.simps) simp
      have p1: "i + 1 \<le> length left" using True by linarith
      have "k + 1 + (length left - (i + 1)) + (length right - j) \<le> length a"
        using True "1.prems" by linarith
      then have p2: "k + 1 + (length left - (i + 1)) + (length right - j)
          \<le> length (a[k := left ! i])" by (simp only: length_list_update)
      note p = p1 p2
      have e: "k + 1 + (length left - (i + 1)) + (length right - j) = n'"
        unfolding n'_def using True by linarith
      have ih: "merge_from left right a1 (i + 1) j (k + 1) =
          take (k + 1) a1 @ merge_fn (drop (i + 1) left) (drop j right) @ drop n' a1"
        using "1.IH"(1)[OF True lt p(1) "1.prems"(2) p(2)] unfolding a1_def[symmetric] e .
      have t: "take (k + 1) a1 = take k a @ [left ! i]"
        unfolding a1_def using k by (simp add: take_Suc_update)
      have "k < n'" unfolding n'_def using True by linarith
      then have d: "drop n' a1 = drop n' a"
        unfolding a1_def by (rule drop_update_cancel)
      have "merge_fn (left ! i # drop (i + 1) left) (right ! j # drop (j + 1) right) =
          left ! i # merge_fn (drop (i + 1) left) (right ! j # drop (j + 1) right)"
        using lt by simp
      then have m: "merge_fn (drop i left) (drop j right) =
          left ! i # merge_fn (drop (i + 1) left) (drop j right)"
        by (simp only: dl[symmetric] dr[symmetric])
      show ?thesis unfolding n'_def[symmetric] by (simp only: unf ih t d m) simp
    next
      case nlt: False
      define a1 where "a1 = a[k := right ! j]"
      have unf: "merge_from left right a i j k = merge_from left right a1 i (j + 1) (k + 1)"
        unfolding merge_from_def a1_def using True nlt by (subst merge_both.simps) simp
      have p1: "j + 1 \<le> length right" using True by linarith
      have "k + 1 + (length left - i) + (length right - (j + 1)) \<le> length a"
        using True "1.prems" by linarith
      then have p2: "k + 1 + (length left - i) + (length right - (j + 1))
          \<le> length (a[k := right ! j])" by (simp only: length_list_update)
      note p = p1 p2
      have e: "k + 1 + (length left - i) + (length right - (j + 1)) = n'"
        unfolding n'_def using True by linarith
      have ih: "merge_from left right a1 i (j + 1) (k + 1) =
          take (k + 1) a1 @ merge_fn (drop i left) (drop (j + 1) right) @ drop n' a1"
        using "1.IH"(2)[OF True nlt "1.prems"(1) p(1) p(2)] unfolding a1_def[symmetric] e .
      have t: "take (k + 1) a1 = take k a @ [right ! j]"
        unfolding a1_def using k by (simp add: take_Suc_update)
      have "k < n'" unfolding n'_def using True by linarith
      then have d: "drop n' a1 = drop n' a"
        unfolding a1_def by (rule drop_update_cancel)
      have "merge_fn (left ! i # drop (i + 1) left) (right ! j # drop (j + 1) right) =
          right ! j # merge_fn (left ! i # drop (i + 1) left) (drop (j + 1) right)"
        using nlt by simp
      then have m: "merge_fn (drop i left) (drop j right) =
          right ! j # merge_fn (drop i left) (drop (j + 1) right)"
        by (simp only: dl[symmetric] dr[symmetric])
      show ?thesis unfolding n'_def[symmetric] by (simp only: unf ih t d m) simp
    qed
  qed
qed

lemma merge_lists_merge_fn:
  "length a = length left + length right \<Longrightarrow> merge_lists left right a = merge_fn left right"
  using merge_from_result[of 0 left 0 right 0 a]
  by (simp add: merge_lists_def merge_from_def)

lemma merge_sort_sort:
  fixes a :: "'a::linorder list"
  shows "merge_sort a = sort a"
proof (induction a rule: merge_sort.induct)
  case (1 a)
  show ?case
  proof (cases "length a > 1")
    case False
    then have "merge_sort a = a" by (subst merge_sort.simps) simp
    moreover from False have "sort a = a" by (cases a) (simp_all add: sorted01)
    ultimately show ?thesis by simp
  next
    case True
    define m where "m = length a div 2"
    have l: "merge_sort (take m a) = sort (take m a)"
      using "1.IH"(1)[OF True m_def] .
    have r: "merge_sort (drop m a) = sort (drop m a)"
      using "1.IH"(2)[OF True m_def refl] .
    have unf: "merge_sort a = merge_lists (sort (take m a)) (sort (drop m a)) a"
      using True by (subst merge_sort.simps) (simp add: Let_def l r flip: m_def)
    have "length a = length (sort (take m a)) + length (sort (drop m a))"
      by (simp add: m_def)
    from merge_lists_merge_fn[OF this] unf
    have eq: "merge_sort a = merge_fn (sort (take m a)) (sort (drop m a))" by simp
    have "mset (merge_sort a) = mset (take m a) + mset (drop m a)"
      by (simp add: eq mset_merge_fn)
    also have "\<dots> = mset a" by (simp flip: mset_append)
    finally have "mset (merge_sort a) = mset a" .
    moreover have "sorted (merge_sort a)" by (simp add: eq sorted_merge_fn)
    ultimately have "sort a = merge_sort a" by (intro properties_for_sort)
    then show ?thesis by simp
  qed
qed


section \<open>Heap sort\<close>


lemma sorted_drop_min:
  fixes s :: "'a::linorder list"
  assumes "sorted s" "m < length s" "x \<in># mset (drop m s)" "\<forall>y. y \<in># mset (drop m s) \<longrightarrow> x \<le> y"
  shows "x = s ! m"
proof -
  have d: "drop m s = s ! m # drop (Suc m) s" using assms(2) by (simp add: Cons_nth_drop_Suc)
  then have "s ! m \<in># mset (drop m s)" by simp
  with assms(4) have le: "x \<le> s ! m" by blast
  from assms(1) have "sorted (drop m s)" by (rule sorted_wrt_drop)
  with d have "\<forall>y\<in>set (drop (Suc m) s). s ! m \<le> y" by simp
  with assms(3) d have "s ! m \<le> x" by auto
  with le show ?thesis by simp
qed

lemma heap_sort_prefix:
  fixes a :: "'a::linorder list"
  assumes H: "min_heap H \<alpha>"
  shows "m \<le> length a \<Longrightarrow>
    (case fold (\<lambda>i s. case s of (a, heap) \<Rightarrow>
                  (case heap_get H heap of (x, heap') \<Rightarrow> (a[i := x], heap')))
            [0..<m] (a, heap_new H a) of
       (b, h) \<Rightarrow> length b = length a \<and> take m b = take m (sort a) \<and>
                 \<alpha> h = mset (drop m (sort a)))"
proof (induction m)
  case 0
  from H have "\<alpha> (heap_new H a) = mset a" by (simp add: min_heap_def)
  then show ?case by simp
next
  case (Suc m)
  define st where "st = fold (\<lambda>i s. case s of (a, heap) \<Rightarrow>
                  (case heap_get H heap of (x, heap') \<Rightarrow> (a[i := x], heap')))
            [0..<m] (a, heap_new H a)"
  obtain b h where st: "st = (b, h)" by (cases st)
  from Suc st have len: "length b = length a" and tk: "take m b = take m (sort a)"
    and al: "\<alpha> h = mset (drop m (sort a))"
    by (simp_all add: st_def)
  from Suc.prems have m: "m < length (sort a)" by simp
  then have d: "drop m (sort a) = sort a ! m # drop (Suc m) (sort a)"
    by (simp add: Cons_nth_drop_Suc)
  with al have ne: "\<alpha> h \<noteq> {#}" by simp
  obtain x h' where g: "heap_get H h = (x, h')" by (cases "heap_get H h")
  from H ne g have x: "x \<in># \<alpha> h" "\<forall>y. y \<in># \<alpha> h \<longrightarrow> x \<le> y" "\<alpha> h' = \<alpha> h - {#x#}"
    unfolding min_heap_def by (metis (mono_tags, lifting) case_prod_conv)+
  from sorted_drop_min[OF sorted_sort m] x(1,2) al have xm: "x = sort a ! m" by simp
  have al': "\<alpha> h' = mset (drop (Suc m) (sort a))" using x(3) al d xm by simp
  have "take (Suc m) (b[m := x]) = take m b @ [x]"
    using Suc.prems len by (simp add: take_Suc_conv_app_nth)
  also have "\<dots> = take (Suc m) (sort a)"
    using tk xm m by (simp add: take_Suc_conv_app_nth)
  finally have tk': "take (Suc m) (b[m := x]) = take (Suc m) (sort a)" .
  have "fold (\<lambda>i s. case s of (a, heap) \<Rightarrow>
                  (case heap_get H heap of (x, heap') \<Rightarrow> (a[i := x], heap')))
            [0..<Suc m] (a, heap_new H a) = (b[m := x], h')"
    using st g by (simp add: st_def[symmetric])
  with len tk' al' show ?case by simp
qed

lemma heap_sort_sort:
  fixes a :: "'a::linorder list"
  assumes "min_heap H \<alpha>"
  shows "heap_sort H a = sort a"
proof -
  obtain b h where st: "fold (\<lambda>i s. case s of (a, heap) \<Rightarrow>
                  (case heap_get H heap of (x, heap') \<Rightarrow> (a[i := x], heap')))
            [0..<length a] (a, heap_new H a) = (b, h)"
    by (cases "fold (\<lambda>i s. case s of (a, heap) \<Rightarrow>
                  (case heap_get H heap of (x, heap') \<Rightarrow> (a[i := x], heap')))
            [0..<length a] (a, heap_new H a)")
  from heap_sort_prefix[OF assms le_refl, of a] st
  have "length b = length a" "take (length a) b = take (length a) (sort a)" by simp_all
  then have "b = sort a" by simp
  with st show ?thesis by (simp add: heap_sort_def)
qed

lemma fold_min_least:
  fixes x :: "'a::linorder"
  shows "fold min xs x \<in> set (x # xs) \<and> (\<forall>y\<in>set (x # xs). fold min xs x \<le> y)"
proof (induction xs arbitrary: x)
  case Nil
  show ?case by simp
next
  case (Cons z zs)
  from Cons[of "min z x"] show ?case by (auto simp: min_def split: if_splits)
qed

lemma list_heap_min: "min_heap (list_heap :: ('a::linorder, 'a list) binary_heap) mset"
  unfolding min_heap_def
proof (intro conjI allI impI)
  fix xs :: "'a list"
  show "mset (heap_new list_heap xs) = mset xs" by (simp add: list_heap_def)
next
  fix h :: "'a list"
  assume "mset h \<noteq> {#}"
  then obtain z zs where h: "h = z # zs" by (cases h) simp_all
  define x where "x = fold min zs z"
  from fold_min_least[of zs z] have "x \<in> set h" "\<forall>y\<in>set h. x \<le> y"
    by (simp_all add: x_def h)
  moreover have "heap_get list_heap h = (x, remove1 x h)"
    by (simp add: list_heap_def h x_def Let_def)
  ultimately show "case heap_get list_heap h of (x, h') \<Rightarrow>
        x \<in># mset h \<and> (\<forall>y. y \<in># mset h \<longrightarrow> x \<le> y) \<and> mset h' = mset h - {#x#}"
    by simp
qed


section \<open>Quick sort\<close>


lemma nth_swap_int:
  assumes "0 \<le> x" "x < int (length a)" "0 \<le> y" "y < int (length a)" "0 \<le> k"
  shows "swap a (nat x) (nat y) ! nat k =
           (if k = y then a ! nat x else if k = x then a ! nat y else a ! nat k)"
proof -
  from assms have "nat x < length a" "nat y < length a" by linarith+
  from nth_swap[OF this, of "nat k"] assms(1,3,5) show ?thesis
    by (simp add: nat_eq_iff)
qed

lemma scan_left_ok:
  fixes a :: "'a::linorder list"
  shows "0 \<le> l \<Longrightarrow> r < int (length a) \<Longrightarrow>
    \<exists>l'. scan_left a p l r = Inr l' \<and> l \<le> l' \<and> l' \<le> max l (r + 1) \<and>
      (\<forall>k. l \<le> k \<and> k < l' \<longrightarrow> a ! nat k \<le> p) \<and> (l' \<le> r \<longrightarrow> \<not> a ! nat l' \<le> p)"
proof (induction a p l r rule: scan_left.induct)
  case (1 a pivot left right)
  show ?case
  proof (cases "left \<le> right")
    case False
    then have u: "scan_left a pivot left right = Inr left" by (simp add: scan_left.simps)
    have v: "\<forall>k. left \<le> k \<and> k < left \<longrightarrow> a ! nat k \<le> pivot" by (intro allI impI) linarith
    have "left \<le> left" "left \<le> max left (right + 1)" "left \<le> right \<longrightarrow> \<not> a ! nat left \<le> pivot"
      using False by simp_all
    with u v show ?thesis by blast
  next
    case True
    with "1.prems" have g: "getitem a left = Inr (a ! nat left)"
      by (intro getitem_in_range) linarith+
    show ?thesis
    proof (cases "a ! nat left \<le> pivot")
      case False
      with True g have u: "scan_left a pivot left right = Inr left"
        by (simp add: scan_left.simps[of a pivot left right])
      have v: "\<forall>k. left \<le> k \<and> k < left \<longrightarrow> a ! nat k \<le> pivot" by (intro allI impI) linarith
      have "left \<le> left" "left \<le> max left (right + 1)" "left \<le> right \<longrightarrow> \<not> a ! nat left \<le> pivot"
        using False by simp_all
      with u v show ?thesis by blast
    next
      case le: True
      with True g have unf: "scan_left a pivot left right = scan_left a pivot (left + 1) right"
        by (simp add: scan_left.simps[of a pivot left right])
      from "1.prems" have "0 \<le> left + 1" by simp
      from "1.IH"[OF True g le this "1.prems"(2)] obtain l' where
        l': "scan_left a pivot (left + 1) right = Inr l'" "left + 1 \<le> l'"
          "l' \<le> max (left + 1) (right + 1)"
          "\<forall>k. left + 1 \<le> k \<and> k < l' \<longrightarrow> a ! nat k \<le> pivot"
          "l' \<le> right \<longrightarrow> \<not> a ! nat l' \<le> pivot" by blast
      have "\<forall>k. left \<le> k \<and> k < l' \<longrightarrow> a ! nat k \<le> pivot"
      proof (intro allI impI)
        fix k assume k: "left \<le> k \<and> k < l'"
        show "a ! nat k \<le> pivot"
        proof (cases "k = left")
          case True with le show ?thesis by simp
        next
          case False
          with k have "left + 1 \<le> k \<and> k < l'" by linarith
          with l'(4) show ?thesis by blast
        qed
      qed
      moreover have "left \<le> l'" "l' \<le> max left (right + 1)" using l'(2,3) True by linarith+
      moreover have "scan_left a pivot left right = Inr l'" using unf l'(1) by simp
      ultimately show ?thesis using l'(5) by blast
    qed
  qed
qed

lemma scan_right_ok:
  fixes a :: "'a::linorder list"
  shows "0 \<le> l \<Longrightarrow> r < int (length a) \<Longrightarrow>
    \<exists>r'. scan_right a p l r = Inr r' \<and> r' \<le> r \<and> min (l - 1) r \<le> r' \<and>
      (\<forall>k. r' < k \<and> k \<le> r \<longrightarrow> p \<le> a ! nat k) \<and> (l \<le> r' \<longrightarrow> \<not> p \<le> a ! nat r')"
proof (induction a p l r rule: scan_right.induct)
  case (1 a pivot left right)
  show ?case
  proof (cases "left \<le> right")
    case False
    then have u: "scan_right a pivot left right = Inr right" by (simp add: scan_right.simps)
    have v: "\<forall>k. right < k \<and> k \<le> right \<longrightarrow> pivot \<le> a ! nat k" by (intro allI impI) linarith
    have "right \<le> right" "min (left - 1) right \<le> right" "left \<le> right \<longrightarrow> \<not> pivot \<le> a ! nat right"
      using False by simp_all
    with u v show ?thesis by blast
  next
    case True
    with "1.prems" have g: "getitem a right = Inr (a ! nat right)"
      by (intro getitem_in_range) linarith+
    show ?thesis
    proof (cases "pivot \<le> a ! nat right")
      case False
      with True g have u: "scan_right a pivot left right = Inr right"
        by (simp add: scan_right.simps[of a pivot left right])
      have v: "\<forall>k. right < k \<and> k \<le> right \<longrightarrow> pivot \<le> a ! nat k" by (intro allI impI) linarith
      have "right \<le> right" "min (left - 1) right \<le> right" "left \<le> right \<longrightarrow> \<not> pivot \<le> a ! nat right"
        using False by simp_all
      with u v show ?thesis by blast
    next
      case le: True
      with True g have unf: "scan_right a pivot left right = scan_right a pivot left (right - 1)"
        by (simp add: scan_right.simps[of a pivot left right])
      from "1.prems" have "right - 1 < int (length a)" by simp
      from "1.IH"[OF True g le "1.prems"(1) this] obtain r' where
        r': "scan_right a pivot left (right - 1) = Inr r'" "r' \<le> right - 1"
          "min (left - 1) (right - 1) \<le> r'"
          "\<forall>k. r' < k \<and> k \<le> right - 1 \<longrightarrow> pivot \<le> a ! nat k"
          "left \<le> r' \<longrightarrow> \<not> pivot \<le> a ! nat r'" by blast
      have "\<forall>k. r' < k \<and> k \<le> right \<longrightarrow> pivot \<le> a ! nat k"
      proof (intro allI impI)
        fix k assume k: "r' < k \<and> k \<le> right"
        show "pivot \<le> a ! nat k"
        proof (cases "k = right")
          case True with le show ?thesis by simp
        next
          case False
          with k have "r' < k \<and> k \<le> right - 1" by linarith
          with r'(4) show ?thesis by blast
        qed
      qed
      moreover have "r' \<le> right" "min (left - 1) right \<le> r'" using r'(2,3) True by linarith+
      moreover have "scan_right a pivot left right = Inr r'" using unf r'(1) by simp
      ultimately show ?thesis using r'(5) by blast
    qed
  qed
qed

lemma same_outside_swap:
  assumes "s \<le> x" "x \<le> e" "s \<le> y" "y \<le> e" "0 \<le> s" "e < int (length a)"
  shows "same_outside a (swap a (nat x) (nat y)) s e"
  unfolding same_outside_def
proof (intro allI impI)
  fix k assume k: "0 \<le> k \<and> k < int (length a) \<and> (k < s \<or> e < k)"
  from assms have r: "0 \<le> x" "x < int (length a)" "0 \<le> y" "y < int (length a)" by linarith+
  from k assms have "k \<noteq> x" "k \<noteq> y" by linarith+
  with nth_swap_int[OF r, of k] k show "swap a (nat x) (nat y) ! nat k = a ! nat k" by simp
qed

lemma same_outside_trans:
  assumes "same_outside a b s e" "same_outside b c s' e'" "length b = length a"
    "s \<le> s'" "e' \<le> e"
  shows "same_outside a c s e"
  unfolding same_outside_def
proof (intro allI impI)
  fix k assume k: "0 \<le> k \<and> k < int (length a) \<and> (k < s \<or> e < k)"
  with assms(1) have "b ! nat k = a ! nat k" by (simp add: same_outside_def)
  moreover from k assms(3,4,5) have "0 \<le> k \<and> k < int (length b) \<and> (k < s' \<or> e' < k)"
    by auto
  with assms(2) have "c ! nat k = b ! nat k" by (simp add: same_outside_def)
  ultimately show "c ! nat k = a ! nat k" by simp
qed

lemma split_ok:
  fixes a :: "'a::linorder list"
  shows "0 \<le> start \<Longrightarrow> start < l \<Longrightarrow> l \<le> r + 1 \<Longrightarrow> r \<le> e \<Longrightarrow> e < int (length a) \<Longrightarrow>
    a ! nat start = p \<Longrightarrow>
    (\<forall>k. start < k \<and> k < l \<longrightarrow> a ! nat k \<le> p) \<Longrightarrow>
    (\<forall>k. r < k \<and> k \<le> e \<longrightarrow> p \<le> a ! nat k) \<Longrightarrow>
    \<exists>a' m. split a p start l r = Inr (a', m) \<and> split_post a p start e a' m"
proof (induction a p start l r rule: split.induct)
  case (1 a pivot start left right)
  note pr = "1.prems"
  from pr have l0: "0 \<le> left" and rl: "right < int (length a)" by linarith+
  from scan_left_ok[OF l0 rl, of pivot] obtain left' where
    sl: "scan_left a pivot left right = Inr left'" and l1: "left \<le> left'"
    and l2: "left' \<le> max left (right + 1)"
    and l3: "\<forall>k. left \<le> k \<and> k < left' \<longrightarrow> a ! nat k \<le> pivot"
    and l4: "left' \<le> right \<longrightarrow> \<not> a ! nat left' \<le> pivot" by blast
  from l0 l1 have l0': "0 \<le> left'" by linarith
  from scan_right_ok[OF l0' rl, of pivot] obtain right' where
    sr: "scan_right a pivot left' right = Inr right'" and r1: "right' \<le> right"
    and r2: "min (left' - 1) right \<le> right'"
    and r3: "\<forall>k. right' < k \<and> k \<le> right \<longrightarrow> pivot \<le> a ! nat k"
    and r4: "left' \<le> right' \<longrightarrow> \<not> pivot \<le> a ! nat right'" by blast
  note unf = split_unfold[OF sl sr, of start]
  from l2 pr(3) have l5: "left' \<le> right + 1" by linarith
  have lo: "\<forall>k. start < k \<and> k < left' \<longrightarrow> a ! nat k \<le> pivot"
  proof (intro allI impI)
    fix k assume k: "start < k \<and> k < left'"
    show "a ! nat k \<le> pivot"
    proof (cases "k < left")
      case True with k pr(7) show ?thesis by blast
    next
      case False with k l3 show ?thesis by simp
    qed
  qed
  have hi: "\<forall>k. right' < k \<and> k \<le> e \<longrightarrow> pivot \<le> a ! nat k"
  proof (intro allI impI)
    fix k assume k: "right' < k \<and> k \<le> e"
    show "pivot \<le> a ! nat k"
    proof (cases "k \<le> right")
      case True with k r3 show ?thesis by blast
    next
      case False with k pr(8) show ?thesis by simp
    qed
  qed
  show ?case
  proof (cases "right' < left'")
    case True
    from r2 l5 True have rr: "right' = left' - 1" by linarith
    with l1 pr(2) have m1: "start \<le> right'" by linarith
    from r1 pr(4) have m2: "right' \<le> e" by linarith
    from m1 m2 pr(1,5) have b: "0 \<le> start" "start < int (length a)" "0 \<le> right'"
      "right' < int (length a)" by linarith+
    define a' where "a' = swap a (nat start) (nat right')"
    have sw: "py_swap a start right' = Inr a'"
      unfolding a'_def using b by (intro py_swap_in_range)
    have res: "split a pivot start left right = Inr (a', right')"
      using unf True sw by simp
    have nth: "\<And>k. 0 \<le> k \<Longrightarrow> a' ! nat k =
        (if k = right' then a ! nat start else if k = start then a ! nat right' else a ! nat k)"
      unfolding a'_def using nth_swap_int[OF b] by simp
    have "split_post a pivot start e a' right'"
      unfolding split_post_def
    proof (intro conjI allI impI)
      show "start \<le> right'" by (rule m1)
      show "right' \<le> e" by (rule m2)
      show "length a' = length a" by (simp add: a'_def)
      show "mset a' = mset a" unfolding a'_def using b by (intro mset_swap_list) linarith+
      show "same_outside a a' start e"
        unfolding a'_def using m1 m2 pr(1,4,5) by (intro same_outside_swap) linarith+
      show "a' ! nat right' = pivot" using nth[OF b(3)] pr(6) by simp
    next
      fix k assume k: "start \<le> k \<and> k < right'"
      then have k0: "0 \<le> k" using pr(1) by linarith
      show "a' ! nat k \<le> pivot"
      proof (cases "k = start")
        case True
        from k True have "start < right' \<and> right' < left'" using rr by linarith
        with lo have "a ! nat right' \<le> pivot" by blast
        with nth[OF k0] True k show ?thesis by simp
      next
        case False
        with k rr have "start < k \<and> k < left'" by linarith
        with lo have "a ! nat k \<le> pivot" by blast
        with nth[OF k0] False k show ?thesis by simp
      qed
    next
      fix k assume k: "right' < k \<and> k \<le> e"
      then have k0: "0 \<le> k" "k \<noteq> start" "k \<noteq> right'" using m1 pr(1) by linarith+
      from k hi have "pivot \<le> a ! nat k" by blast
      with nth[OF k0(1)] k0 show "pivot \<le> a' ! nat k" by simp
    qed
    with res show ?thesis by blast
  next
    case False
    then have le: "left' \<le> right'" by simp
    with r1 have lr: "left' \<le> right" by linarith
    from l1 pr(1,2) le r1 rl have b: "0 \<le> left'" "left' < int (length a)" "0 \<le> right'"
      "right' < int (length a)" by linarith+
    define a2 where "a2 = swap a (nat left') (nat right')"
    have sw: "py_swap a left' right' = Inr a2"
      unfolding a2_def using b by (intro py_swap_in_range)
    have unf2: "split a pivot start left right = split a2 pivot start left' right'"
      using unf False sw by simp
    have nth: "\<And>k. 0 \<le> k \<Longrightarrow> a2 ! nat k =
        (if k = right' then a ! nat left' else if k = left' then a ! nat right' else a ! nat k)"
      unfolding a2_def using nth_swap_int[OF b] by simp
    have len2: "length a2 = length a" by (simp add: a2_def)
    have ms2: "mset a2 = mset a" unfolding a2_def using b by (intro mset_swap_list) linarith+
    have p2: "start < left'" using l1 pr(2) by linarith
    have p3: "left' \<le> right' + 1" using le by linarith
    have p4: "right' \<le> e" using r1 pr(4) by linarith
    have p5: "e < int (length a2)" using pr(5) len2 by simp
    have p6: "a2 ! nat start = pivot"
      using nth[OF pr(1)] p2 le pr(6) by simp
    have p7: "\<forall>k. start < k \<and> k < left' \<longrightarrow> a2 ! nat k \<le> pivot"
    proof (intro allI impI)
      fix k assume k: "start < k \<and> k < left'"
      then have "0 \<le> k" "k \<noteq> left'" "k \<noteq> right'" using pr(1) le by linarith+
      with nth[of k] have "a2 ! nat k = a ! nat k" by simp
      with lo k show "a2 ! nat k \<le> pivot" by simp
    qed
    have p8: "\<forall>k. right' < k \<and> k \<le> e \<longrightarrow> pivot \<le> a2 ! nat k"
    proof (intro allI impI)
      fix k assume k: "right' < k \<and> k \<le> e"
      then have "0 \<le> k" "k \<noteq> left'" "k \<noteq> right'" using b le by linarith+
      with nth[of k] have "a2 ! nat k = a ! nat k" by simp
      with hi k show "pivot \<le> a2 ! nat k" by simp
    qed
    from "1.IH"[OF sl sr False sw pr(1) p2 p3 p4 p5 p6 p7 p8] obtain a' m where
      rec: "split a2 pivot start left' right' = Inr (a', m)"
      and post: "split_post a2 pivot start e a' m" by blast
    have so2: "same_outside a a2 start e"
      unfolding a2_def using p2 le p4 lr pr(1,4,5) by (intro same_outside_swap) linarith+
    from post have so': "same_outside a2 a' start e" by (simp add: split_post_def)
    from same_outside_trans[OF so2 so' len2] have so: "same_outside a a' start e" by simp
    from post len2 ms2 so have "split_post a pivot start e a' m"
      by (simp add: split_post_def)
    with unf2 rec show ?thesis by simp
  qed
qed



lemma mset_drop_eq:
  assumes "mset a' = mset a" "take m a' = take m a"
  shows "mset (drop m a') = mset (drop m a)"
proof -
  have "mset (take m a') + mset (drop m a') = mset (take m a) + mset (drop m a)"
    using assms(1) by (simp flip: mset_append)
  with assms(2) show ?thesis by simp
qed

lemma range_elem:
  assumes len: "length a' = length a" and ms: "mset a' = mset a"
    and so: "same_outside a a' s e" and b: "0 \<le> s" "e < int (length a)" and i: "s \<le> i" "i \<le> e"
  shows "\<exists>i'. s \<le> i' \<and> i' \<le> e \<and> a' ! nat i = a ! nat i'"
proof -
  define S where "S = nat s"
  define E where "E = Suc (nat e)"
  from b i have SE: "S \<le> nat i" "nat i < E" "E \<le> length a" unfolding S_def E_def by linarith+
  have "drop E a' = drop E a"
  proof (rule nth_equalityI)
    show "length (drop E a') = length (drop E a)" by (simp add: len)
    fix k assume "k < length (drop E a')"
    then have k: "E + k < length a" using len by simp
    then have "0 \<le> int (E + k) \<and> int (E + k) < int (length a) \<and> (int (E + k) < s \<or> e < int (E + k))"
      unfolding E_def by linarith
    with so have "a' ! nat (int (E + k)) = a ! nat (int (E + k))"
      unfolding same_outside_def by blast
    then have "a' ! (E + k) = a ! (E + k)" by (simp only: nat_int)
    with k len show "drop E a' ! k = drop E a ! k" by simp
  qed
  from mset_take_eq[OF ms this] have mt: "mset (take E a') = mset (take E a)" .
  have "take S (take E a') = take S (take E a)"
  proof (rule nth_equalityI)
    show "length (take S (take E a')) = length (take S (take E a))" by (simp add: len)
    fix k assume "k < length (take S (take E a'))"
    then have k: "k < S" "k < E" "k < length a" using len by simp_all
    then have "0 \<le> int k \<and> int k < int (length a) \<and> (int k < s \<or> e < int k)"
      unfolding S_def by linarith
    with so have "a' ! nat (int k) = a ! nat (int k)" unfolding same_outside_def by blast
    then have "a' ! k = a ! k" by (simp only: nat_int)
    with k show "take S (take E a') ! k = take S (take E a) ! k" by simp
  qed
  from mset_drop_eq[OF mt this]
  have "set (drop S (take E a')) = set (drop S (take E a))" by (rule mset_eq_setD)
  moreover have "a' ! nat i \<in> set (drop S (take E a'))"
  proof -
    have "nat i - S < length (drop S (take E a'))" using SE len by simp
    moreover have "drop S (take E a') ! (nat i - S) = a' ! nat i" using SE len by simp
    ultimately show ?thesis by (metis nth_mem)
  qed
  ultimately have "a' ! nat i \<in> set (drop S (take E a))" by simp
  then obtain k where k: "k < length (drop S (take E a))" "drop S (take E a) ! k = a' ! nat i"
    by (auto simp: in_set_conv_nth)
  from k(1) SE have kk: "S + k < E" by simp
  with k(2) SE have "a ! (S + k) = a' ! nat i" by simp
  then have "a' ! nat i = a ! nat (int (S + k))" by (simp only: nat_int)
  moreover have "s \<le> int (S + k)" "int (S + k) \<le> e"
    using kk b i unfolding S_def E_def by linarith+
  ultimately show ?thesis by blast
qed

lemma partition_ok:
  fixes a :: "'a::linorder list"
  shows "0 \<le> start \<Longrightarrow> e < int (length a) \<Longrightarrow> 0 \<le> fct \<Longrightarrow> fct \<le> 1 \<Longrightarrow>
    \<exists>a'. partition_py a start e fct = Inr a' \<and> length a' = length a \<and> mset a' = mset a \<and>
       same_outside a a' start e \<and> range_sorted a' start e"
proof (induction a start e fct rule: partition_py.induct)
  case (1 a start en fct)
  note pr = "1.prems"
  show ?case
  proof (cases "start < en")
    case False
    then have "partition_py a start en fct = Inr a" by (subst partition_py.simps) simp
    moreover have "same_outside a a start en" by (simp add: same_outside_def)
    moreover have "range_sorted a start en"
      unfolding range_sorted_def
    proof (intro allI impI)
      fix i j assume "start \<le> i \<and> i \<le> j \<and> j \<le> en"
      with False have "i = j" by linarith
      then show "a ! nat i \<le> a ! nat j" by simp
    qed
    ultimately show ?thesis by simp
  next
    case True
    define idx where "idx = pivot_index start en fct"
    from pivot_index_range[OF pr(3,4) True pr(1)] have ir: "start \<le> idx" "idx \<le> en"
      by (simp_all add: idx_def)
    with pr True have b: "0 \<le> start" "start < int (length a)" "0 \<le> idx" "idx < int (length a)"
      by linarith+
    define a1 where "a1 = swap a (nat start) (nat idx)"
    have sw: "py_swap a start idx = Inr a1" unfolding a1_def using b by (intro py_swap_in_range)
    have len1: "length a1 = length a" by (simp add: a1_def)
    have ms1: "mset a1 = mset a" unfolding a1_def using b by (intro mset_swap_list) linarith+
    have so1: "same_outside a a1 start en"
      unfolding a1_def using ir pr(1,2) by (intro same_outside_swap) linarith+
    define pivot where "pivot = a1 ! nat start"
    have g: "getitem a1 start = Inr pivot"
      unfolding pivot_def using b len1 by (intro getitem_in_range) linarith+
    have "\<exists>a2 m. split a1 pivot start (start + 1) en = Inr (a2, m) \<and>
            split_post a1 pivot start en a2 m"
    proof (rule split_ok)
      show "0 \<le> start" by (rule pr(1))
      show "start < start + 1" by simp
      show "start + 1 \<le> en + 1" using True by simp
      show "en \<le> en" by simp
      show "en < int (length a1)" using pr(2) len1 by simp
      show "a1 ! nat start = pivot" by (simp add: pivot_def)
      show "\<forall>k. start < k \<and> k < start + 1 \<longrightarrow> a1 ! nat k \<le> pivot"
        by (intro allI impI) linarith
      show "\<forall>k. en < k \<and> k \<le> en \<longrightarrow> pivot \<le> a1 ! nat k"
        by (intro allI impI) linarith
    qed
    then obtain a2 m where sp: "split a1 pivot start (start + 1) en = Inr (a2, m)"
      and post: "split_post a1 pivot start en a2 m" by blast
    from post have m: "start \<le> m" "m \<le> en" and len2: "length a2 = length a1"
      and ms2: "mset a2 = mset a1" and so2: "same_outside a1 a2 start en"
      and pm: "a2 ! nat m = pivot"
      and lo: "\<forall>k. start \<le> k \<and> k < m \<longrightarrow> a2 ! nat k \<le> pivot"
      and hi: "\<forall>k. m < k \<and> k \<le> en \<longrightarrow> pivot \<le> a2 ! nat k"
      by (simp_all add: split_post_def)
    have e2: "m - 1 < int (length a2)" using m pr(2) len2 len1 by linarith
    from "1.IH"(1)[OF True sw[unfolded idx_def] g sp refl pr(1) e2 pr(3,4)] obtain a3 where
      p3: "partition_py a2 start (m - 1) fct = Inr a3" and len3: "length a3 = length a2"
      and ms3: "mset a3 = mset a2" and so3: "same_outside a2 a3 start (m - 1)"
      and rs3: "range_sorted a3 start (m - 1)" by blast
    have s4: "0 \<le> m + 1" using m pr(1) by linarith
    have e4: "en < int (length a3)" using pr(2) len3 len2 len1 by simp
    from "1.IH"(2)[OF True sw[unfolded idx_def] g sp refl p3 s4 e4 pr(3,4)] obtain a4 where
      p4: "partition_py a3 (m + 1) en fct = Inr a4" and len4: "length a4 = length a3"
      and ms4: "mset a4 = mset a3" and so4: "same_outside a3 a4 (m + 1) en"
      and rs4: "range_sorted a4 (m + 1) en" by blast
    have res: "partition_py a start en fct = Inr a4"
      using True sw g sp p3 p4 by (subst partition_py.simps) (simp add: idx_def)
    have lens: "length a2 = length a" "length a3 = length a" "length a4 = length a"
      using len1 len2 len3 len4 by simp_all
    have in3: "\<And>k. 0 \<le> k \<Longrightarrow> k < int (length a) \<Longrightarrow> k < start \<or> m - 1 < k \<Longrightarrow>
        a3 ! nat k = a2 ! nat k"
      using so3 lens by (simp add: same_outside_def)
    have in4: "\<And>k. 0 \<le> k \<Longrightarrow> k < int (length a) \<Longrightarrow> k < m + 1 \<or> en < k \<Longrightarrow>
        a4 ! nat k = a3 ! nat k"
      using so4 lens by (simp add: same_outside_def)
    have left_le: "\<And>k. start \<le> k \<Longrightarrow> k < m \<Longrightarrow> a4 ! nat k \<le> pivot"
    proof -
      fix k assume k: "start \<le> k" "k < m"
      then have "a4 ! nat k = a3 ! nat k" using in4[of k] pr m by linarith
      moreover from range_elem[OF len3 ms3 so3 pr(1) e2 k(1)] k(2)
      obtain k' where "start \<le> k'" "k' \<le> m - 1" "a3 ! nat k = a2 ! nat k'" by auto
      moreover from this lo have "a2 ! nat k' \<le> pivot" by simp
      ultimately show "a4 ! nat k \<le> pivot" by simp
    qed
    have at_m: "a4 ! nat m = pivot"
    proof -
      have "a4 ! nat m = a3 ! nat m" using in4[of m] pr m by linarith
      also have "\<dots> = a2 ! nat m" using in3[of m] pr m by linarith
      finally show ?thesis using pm by simp
    qed
    have right_ge: "\<And>k. m < k \<Longrightarrow> k \<le> en \<Longrightarrow> pivot \<le> a4 ! nat k"
    proof -
      fix k assume k: "m < k" "k \<le> en"
      then have k1: "m + 1 \<le> k" by linarith
      from range_elem[OF len4 ms4 so4 s4 e4 k1 k(2)]
      obtain k' where k': "m + 1 \<le> k'" "k' \<le> en" "a4 ! nat k = a3 ! nat k'" by auto
      then have "a3 ! nat k' = a2 ! nat k'" using in3[of k'] pr m by linarith
      moreover from k' hi have "pivot \<le> a2 ! nat k'" by simp
      ultimately show "pivot \<le> a4 ! nat k" using k'(3) by simp
    qed
    have rs: "range_sorted a4 start en"
      unfolding range_sorted_def
    proof (intro allI impI)
      fix i j assume ij: "start \<le> i \<and> i \<le> j \<and> j \<le> en"
      consider "j < m" | "m < i" | "i \<le> m" "m \<le> j" by linarith
      then show "a4 ! nat i \<le> a4 ! nat j"
      proof cases
        case 1
        with ij have "start \<le> i \<and> i \<le> j \<and> j \<le> m - 1" by linarith
        with rs3 have "a3 ! nat i \<le> a3 ! nat j" unfolding range_sorted_def by blast
        moreover have "a4 ! nat i = a3 ! nat i" using in4[of i] ij 1 pr m by linarith
        moreover have "a4 ! nat j = a3 ! nat j" using in4[of j] ij 1 pr m by linarith
        ultimately show ?thesis by simp
      next
        case 2
        with ij have "m + 1 \<le> i \<and> i \<le> j \<and> j \<le> en" by linarith
        with rs4 show ?thesis unfolding range_sorted_def by blast
      next
        case 3
        have "a4 ! nat i \<le> pivot"
        proof (cases "i = m")
          case True with at_m show ?thesis by simp
        next
          case False
          with 3 ij left_le[of i] show ?thesis by simp
        qed
        moreover have "pivot \<le> a4 ! nat j"
        proof (cases "j = m")
          case True with at_m show ?thesis by simp
        next
          case False
          with 3 ij right_ge[of j] show ?thesis by simp
        qed
        ultimately show ?thesis by simp
      qed
    qed
    have so: "same_outside a a4 start en"
    proof -
      from same_outside_trans[OF so1 so2 len1] have "same_outside a a2 start en" by simp
      from same_outside_trans[OF this so3 lens(1)] m have "same_outside a a3 start en" by simp
      from same_outside_trans[OF this so4 lens(2)] m show ?thesis by simp
    qed
    from res lens(3) ms4 ms3 ms2 ms1 so rs show ?thesis by simp
  qed
qed

lemma quick_sort_sort:
  fixes a :: "'a::linorder list"
  assumes "0 \<le> num_val fct" "num_val fct \<le> 1"
  shows "quick_sort a fct = Inr (sort a)"
proof -
  have "int (length a) - 1 < int (length a)" by simp
  from partition_ok[OF order_refl this assms] obtain a' where
    r: "partition_py a 0 (int (length a) - 1) (num_val fct) = Inr a'"
    and len: "length a' = length a" and ms: "mset a' = mset a"
    and rs: "range_sorted a' 0 (int (length a) - 1)" by blast
  have "sorted a'"
    unfolding sorted_iff_nth_mono
  proof (intro allI impI)
    fix i j assume "i \<le> j" "j < length a'"
    with len have "0 \<le> int i \<and> int i \<le> int j \<and> int j \<le> int (length a) - 1" by linarith
    with rs have "a' ! nat (int i) \<le> a' ! nat (int j)" unfolding range_sorted_def by blast
    then show "a' ! i \<le> a' ! j" by (simp only: nat_int)
  qed
  with ms have "sort a = a'" by (intro properties_for_sort)
  with r show ?thesis by (simp add: quick_sort_def)
qed


section \<open>The dispatcher\<close>


lemma run_method_sort:
  fixes data :: "'a::linorder list"
  assumes H: "min_heap H \<alpha>" and vp: "valid_param method param"
  shows "(if method = ''bubble'' then Inr (bubble_sort data)
            else if method = ''short_bubble'' then Inr (short_bubble_sort data)
            else if method = ''selection'' then Inr (selection_sort data)
            else if method = ''insertion'' then insertion_sort data 0 1
            else if method = ''shell'' then
              shell_sort_num data (case param of None \<Rightarrow> PyInt 1 | Some p \<Rightarrow> p)
            else if method = ''quick'' then
              quick_sort data (case param of None \<Rightarrow> PyInt 0 | Some p \<Rightarrow> p)
            else if method = ''heap'' then Inr (heap_sort H data)
            else Inr (merge_sort data)) = Inr (sort data)"
proof -
  consider (shell) "method = ''shell''" | (quick) "method = ''quick''"
    | (other) "method \<noteq> ''shell''" "method \<noteq> ''quick''" by blast
  then show ?thesis
  proof cases
    case shell
    from vp shell obtain g where g: "(case param of None \<Rightarrow> PyInt 1 | Some p \<Rightarrow> p) = PyInt g" "1 \<le> g"
      by (auto simp: valid_param_def split: option.splits number.splits)
    from shell_sort_sort[OF g(2), of data] g(1) have "shell_sort_num data
        (case param of None \<Rightarrow> PyInt 1 | Some p \<Rightarrow> p) = Inr (sort data)"
      by (simp add: shell_sort_num_def)
    with shell show ?thesis by simp
  next
    case quick
    define p where "p = (case param of None \<Rightarrow> PyInt 0 | Some p \<Rightarrow> p)"
    from vp quick have "0 \<le> num_val p" "num_val p \<le> 1"
      by (auto simp: valid_param_def p_def split: option.splits)
    from quick_sort_sort[OF this, of data] have "quick_sort data p = Inr (sort data)" .
    with quick show ?thesis by (simp add: p_def)
  next
    case other
    then show ?thesis
      by (simp add: bubble_sort_sort short_bubble_sort_sort selection_sort_sort
            insertion_sort_sort heap_sort_sort[OF H] merge_sort_sort)
  qed
qed

lemma sort_py_run:
  fixes data :: "'a::linorder list"
  assumes "min_heap H \<alpha>" "valid_param method param"
  shows "sort_py H data method descending param =
     (case build_index (sort data) data of Inl e \<Rightarrow> Inl e
      | Inr idx \<Rightarrow> if descending then Inr (rev (sort data), rev idx) else Inr (sort data, idx))"
  unfolding sort_py_def run_method_sort[OF assms] by (simp add: reverse_rev split: sum.splits)

lemma build_index_sort:
  fixes data :: "'a::linorder list"
  shows "build_index (sort data) data =
     Inr (map (\<lambda>k. positions (sort data) data ! k) (positions (sort data) data))"
  by (rule build_index_positions) simp_all

text \<open>
  Claim C1. For every finite sequence over a linear order and every method name, with
  \<open>param\<close> absent or in the documented range of the method, \<open>sort\<close> returns a sequence
  with the same multiset of elements as the input, in non-decreasing order, or in
  non-increasing order when \<open>descending\<close> is set. For the method \<open>heap\<close> this rests on
  the contract of the heap collaborator.
\<close>

theorem sort_py_sorts:
  fixes data :: "'a::linorder list"
  assumes "min_heap H \<alpha>" "valid_param method param"
  shows "\<exists>a idx. sort_py H data method descending param = Inr (a, idx) \<and>
           mset a = mset data \<and> length idx = length data \<and>
           (if descending then sorted_wrt (\<lambda>x y. x \<ge> y) a else sorted a)"
proof -
  define idx where "idx = map (\<lambda>k. positions (sort data) data ! k) (positions (sort data) data)"
  have li: "length idx = length data" by (simp add: idx_def positions_def)
  have r: "sort_py H data method descending param =
      (if descending then Inr (rev (sort data), rev idx) else Inr (sort data, idx))"
    using sort_py_run[OF assms, of data descending] build_index_sort[of data]
    by (simp add: idx_def)
  show ?thesis
  proof (cases descending)
    case True
    have "sorted_wrt (\<lambda>x y. x \<ge> y) (rev (sort data))"
      by (simp add: sorted_wrt_rev)
    with r True li show ?thesis by simp
  next
    case False
    with r li show ?thesis by simp
  qed
qed

theorem sort_py_sorts_witness:
  "min_heap (list_heap :: (int, int list) binary_heap) mset \<and>
   valid_param ''quick'' (Some (PyFloat (1/2))) \<and>
   (\<exists>a idx. sort_py list_heap [3, 1, 2 :: int] ''quick'' True (Some (PyFloat (1/2))) = Inr (a, idx) \<and>
      mset a = mset [3, 1, 2 :: int] \<and> sorted_wrt (\<lambda>x y. x \<ge> y) a)"
proof -
  have h: "min_heap (list_heap :: (int, int list) binary_heap) mset" by (rule list_heap_min)
  have v: "valid_param ''quick'' (Some (PyFloat (1/2)))" by (simp add: valid_param_def)
  from sort_py_sorts[OF h v, of "[3, 1, 2 :: int]" True] h v show ?thesis by auto
qed

text \<open>
  Claim C8. For the input \<open>[54,26,93,17,77,31,44,55,20]\<close> and every method name, \<open>sort\<close>
  returns \<open>[17,20,26,31,44,54,55,77,93]\<close> with the index array \<open>[3,8,1,5,6,0,7,4,2]\<close>,
  and with \<open>descending\<close> set it returns the reverse of both.
\<close>

theorem sort_py_example:
  assumes "min_heap H \<alpha>" "valid_param method param"
  shows "sort_py H [54, 26, 93, 17, 77, 31, 44, 55, 20 :: int] method False param =
           Inr ([17, 20, 26, 31, 44, 54, 55, 77, 93], [3, 8, 1, 5, 6, 0, 7, 4, 2]) \<and>
         sort_py H [54, 26, 93, 17, 77, 31, 44, 55, 20 :: int] method True param =
           Inr (rev [17, 20, 26, 31, 44, 54, 55, 77, 93], rev [3, 8, 1, 5, 6, 0, 7, 4, 2])"
proof -
  have s: "sort [54, 26, 93, 17, 77, 31, 44, 55, 20 :: int] = [17, 20, 26, 31, 44, 54, 55, 77, 93]"
    by simp
  have b: "build_index [17, 20, 26, 31, 44, 54, 55, 77, 93 :: int]
             [54, 26, 93, 17, 77, 31, 44, 55, 20] = Inr [3, 8, 1, 5, 6, 0, 7, 4, 2]"
    by (simp add: build_index_def sequential_search_def upt_rec)
  show ?thesis unfolding sort_py_run[OF assms] s b by simp
qed

theorem sort_py_example_witness:
  "min_heap (list_heap :: (int, int list) binary_heap) mset \<and> valid_param ''heap'' None \<and>
   sort_py list_heap [54, 26, 93, 17, 77, 31, 44, 55, 20 :: int] ''heap'' False None =
     Inr ([17, 20, 26, 31, 44, 54, 55, 77, 93], [3, 8, 1, 5, 6, 0, 7, 4, 2]) \<and>
   sort_py list_heap [54, 26, 93, 17, 77, 31, 44, 55, 20 :: int] ''heap'' True None =
     Inr ([93, 77, 55, 54, 44, 31, 26, 20, 17], [2, 4, 7, 0, 6, 5, 1, 8, 3])"
proof -
  have h: "min_heap (list_heap :: (int, int list) binary_heap) mset" by (rule list_heap_min)
  have v: "valid_param ''heap'' None" by (simp add: valid_param_def)
  from sort_py_example[OF h v] h v show ?thesis by simp
qed

text \<open>
  Claim C2, as amended. When the values are pairwise distinct and the sorted sequence
  is a rearrangement of the original one, \<open>build_index\<close> returns an index array that
  is a permutation of \<open>0..N-1\<close>; hence so does \<open>sort\<close> on a sequence of pairwise
  distinct values.
\<close>

theorem build_index_distinct_perm:
  fixes data :: "'a::linorder list"
  shows "(distinct a_original \<and> mset a_sorted = mset a_original \<longrightarrow>
            (\<exists>idx. build_index a_sorted a_original = Inr idx \<and>
                   mset idx = mset [0..<length a_original])) \<and>
         (distinct data \<and> min_heap H \<alpha> \<and> valid_param method param \<longrightarrow>
            (\<exists>a idx. sort_py H data method descending param = Inr (a, idx) \<and>
                     mset idx = mset [0..<length data]))"
proof (intro conjI impI)
  assume "distinct a_original \<and> mset a_sorted = mset a_original"
  then show "\<exists>idx. build_index a_sorted a_original = Inr idx \<and>
                   mset idx = mset [0..<length a_original]"
    using build_index_perm by blast
next
  assume h: "distinct data \<and> min_heap H \<alpha> \<and> valid_param method param"
  then have "distinct data" "mset (sort data) = mset data" by simp_all
  from build_index_perm[OF this] obtain idx where
    b: "build_index (sort data) data = Inr idx" and p: "mset idx = mset [0..<length data]"
    by blast
  from h have "min_heap H \<alpha>" "valid_param method param" by simp_all
  from sort_py_run[OF this, of data descending] b
  have "sort_py H data method descending param =
      (if descending then Inr (rev (sort data), rev idx) else Inr (sort data, idx))" by simp
  with p show "\<exists>a idx. sort_py H data method descending param = Inr (a, idx) \<and>
                     mset idx = mset [0..<length data]"
    by (cases descending) simp_all
qed

theorem build_index_distinct_perm_witness:
  "distinct [2, 1 :: int] \<and> mset [1, 2 :: int] = mset [2, 1] \<and>
   (\<exists>idx. build_index [1, 2 :: int] [2, 1] = Inr idx \<and> mset idx = mset [0..<length [2, 1 :: int]]) \<and>
   min_heap (list_heap :: (int, int list) binary_heap) mset \<and> valid_param ''merge'' None \<and>
   (\<exists>a idx. sort_py list_heap [2, 1 :: int] ''merge'' False None = Inr (a, idx) \<and>
      mset idx = mset [0..<length [2, 1 :: int]])"
proof -
  have d: "distinct [2, 1 :: int]" by simp
  have m: "mset [1, 2 :: int] = mset [2, 1]" by simp
  have h: "min_heap (list_heap :: (int, int list) binary_heap) mset" by (rule list_heap_min)
  have v: "valid_param ''merge'' None" by (simp add: valid_param_def)
  from build_index_distinct_perm[of "[2, 1 :: int]" "[1, 2 :: int]" "[2, 1 :: int]"
      "list_heap :: (int, int list) binary_heap" mset "''merge''" None False]
    d m h v show ?thesis by blast
qed

text \<open>
  The claim as first stated fails in two ways. With duplicates the result need not be
  a permutation: for \<open>[1, 1]\<close> it is \<open>[0, 0]\<close>. Without duplicates, applying the
  result to the original sequence need not give the sorted one: for the original
  \<open>[2, 1]\<close> the result is \<open>[0, 1]\<close>, which leaves \<open>[2, 1]\<close> as it is.
\<close>

theorem build_index_not_sorting_perm:
  "build_index [1, 1 :: int] [1, 1] = Inr [0, 0] \<and>
   mset [0, 0 :: nat] \<noteq> mset [0..<2] \<and>
   build_index [1, 2 :: int] [2, 1] = Inr [0, 1] \<and>
   map (\<lambda>k. [2, 1 :: int] ! k) [0, 1] \<noteq> [1, 2]"
  by (simp add: build_index_def sequential_search_def upt_rec)

end
